theory Spec2Isabelle
  imports Main "HOL-Library.AList"
begin

section \<open>Settings and their sanitization\<close>

text \<open>
  \<^verbatim>\<open>interface GitPublisherSettings\<close> of \<^verbatim>\<open>src/main.ts\<close>. The numeric options are
  whole numbers (the settings tab stores the result of \<^verbatim>\<open>parseInt\<close>), modelled as
  \<open>int\<close>; strings are \<open>string\<close>.
\<close>

record GitPublisherSettings =
  repoUri :: string
  githubToken :: string
  autoPublishEnabled :: bool
  inactivityDelaySec :: int
  maxIntervalMin :: int
  defaultBranch :: string
  debounceMs :: int
  batchCommitMessage :: string
  maxFileSizeKB :: int

text \<open>The character classes of the two regular expressions of \<^verbatim>\<open>sanitizeSettings\<close>.\<close>

definition alnum_char :: "char \<Rightarrow> bool" where
  "alnum_char c \<longleftrightarrow>
     c \<in> set ''abcdefghijklmnopqrstuvwxyzABCDEFGHIJKLMNOPQRSTUVWXYZ0123456789''"

definition repo_char :: "char \<Rightarrow> bool" where
  \<comment> \<open>\<^verbatim>\<open>[\w.-]\<close>\<close>
  "repo_char c \<longleftrightarrow> alnum_char c \<or> c = CHR ''_'' \<or> c = CHR ''.'' \<or> c = CHR ''-''"

definition branch_char :: "char \<Rightarrow> bool" where
  \<comment> \<open>\<^verbatim>\<open>[A-Za-z0-9._\/-]\<close>\<close>
  "branch_char c \<longleftrightarrow>
     alnum_char c \<or> c = CHR ''.'' \<or> c = CHR ''_'' \<or> c = CHR ''/'' \<or> c = CHR ''-''"

fun strip_prefix :: "string \<Rightarrow> string \<Rightarrow> string option" where
  "strip_prefix [] u = Some u"
| "strip_prefix (p # ps) [] = None"
| "strip_prefix (p # ps) (c # cs) = (if p = c then strip_prefix ps cs else None)"

definition match_repo :: "string \<Rightarrow> (string \<times> string) option" where
  \<comment> \<open>\<^verbatim>\<open>u.match(/^https:\/\/github\.com\/([\w.-]+)\/([\w.-]+)(?:\.git)?$/)\<close>: the two
      groups. The class excludes \<^verbatim>\<open>/\<close>, so the first group is the run up to the next
      \<^verbatim>\<open>/\<close>; the second group is greedy and the class holds every character of
      \<^verbatim>\<open>.git\<close>, so it takes the whole rest and the optional group matches nothing.\<close>
  "match_repo u =
     (case strip_prefix ''https://github.com/'' u of
        None \<Rightarrow> None
      | Some r \<Rightarrow>
          (let owner = takeWhile repo_char r in
           case dropWhile repo_char r of
             [] \<Rightarrow> None
           | c # repo \<Rightarrow>
               if owner \<noteq> [] \<and> c = CHR ''/'' \<and> repo \<noteq> [] \<and> list_all repo_char repo
               then Some (owner, repo) else None))"

definition valid_repo :: "string \<Rightarrow> bool" where
  \<comment> \<open>\<^verbatim>\<open>/^https:\/\/github\.com\/[\w.-]+\/[\w.-]+(?:\.git)?$/.test(u)\<close>\<close>
  "valid_repo u \<longleftrightarrow> match_repo u \<noteq> None"

definition valid_branch :: "string \<Rightarrow> bool" where
  \<comment> \<open>\<^verbatim>\<open>/^[A-Za-z0-9._\/-]+$/.test(b)\<close>\<close>
  "valid_branch b \<longleftrightarrow> b \<noteq> [] \<and> list_all branch_char b"

definition clean_message :: "string \<Rightarrow> string" where
  \<comment> \<open>\<^verbatim>\<open>m.replace(/[\r\n]/g, ' ').slice(0, 100) || 'Publish'\<close>\<close>
  "clean_message m =
     (let t = take 100 (map (\<lambda>c. if c = CHR 0x0D \<or> c = CHR 0x0A then CHR '' '' else c) m)
      in if t = [] then ''Publish'' else t)"

definition sanitizeSettings :: "GitPublisherSettings \<Rightarrow> GitPublisherSettings" where
  "sanitizeSettings st0 =
     (let st1 = (if \<not> valid_repo (repoUri st0)
                 then st0\<lparr>repoUri := [], autoPublishEnabled := False\<rparr> else st0);
          st2 = (if \<not> valid_branch (defaultBranch st1)
                 then st1\<lparr>defaultBranch := ''main''\<rparr> else st1);
          st3 = (if inactivityDelaySec st2 < 5 then st2\<lparr>inactivityDelaySec := 5\<rparr> else st2);
          st4 = (if maxIntervalMin st3 < 1 then st3\<lparr>maxIntervalMin := 1\<rparr> else st3);
          st5 = (if debounceMs st4 < 250 then st4\<lparr>debounceMs := 250\<rparr> else st4);
          st6 = (if maxFileSizeKB st5 < 50 then st5\<lparr>maxFileSizeKB := 50\<rparr> else st5)
      in st6\<lparr>batchCommitMessage := clean_message (batchCommitMessage st6)\<rparr>)"

definition defaults :: GitPublisherSettings where
  \<comment> \<open>the \<^verbatim>\<open>defaults\<close> of \<^verbatim>\<open>loadSettings\<close>\<close>
  "defaults = \<lparr>repoUri = [], githubToken = [], autoPublishEnabled = True,
     inactivityDelaySec = 30, maxIntervalMin = 5, defaultBranch = ''main'',
     debounceMs = 1500, batchCommitMessage = ''Publish'', maxFileSizeKB = 1024\<rparr>"

section \<open>The host application and the remote repository\<close>

text \<open>
  The vault (\<^verbatim>\<open>app.vault\<close>, \<^verbatim>\<open>app.metadataCache\<close>): what
  \<^verbatim>\<open>getAbstractFileByPath\<close> finds at a path is a folder or a file; of a file the model
  keeps what the plugin reads: its extension, the text \<^verbatim>\<open>vault.read\<close> returns, the size
  \<^verbatim>\<open>adapter.stat?.(path)?.size\<close> gives (\<open>None\<close> when there is no such number) and the
  cached frontmatter property \<^verbatim>\<open>published\<close> (\<open>None\<close> when it is absent).
\<close>

record TFile =
  extension :: string
  content :: string
  stat_size :: "nat option"
  published :: "bool option"

datatype entry = Folder | File TFile

text \<open>
  The GitHub API as \<^verbatim>\<open>githubReq\<close> sees it. A request is what \<^verbatim>\<open>axios.request\<close> is
  given: the repository (owner and name) and, per end point, the data the plugin sends.
  A reply is a rejection with the HTTP status \<^verbatim>\<open>e.response?.status\<close>, or the body
  \<^verbatim>\<open>r.data\<close>: either nothing (a falsy body) or an object, of which the model keeps the
  object id the caller reads (\<^verbatim>\<open>sha\<close>, \<^verbatim>\<open>object.sha\<close> or \<^verbatim>\<open>content.sha\<close>).
\<close>

type_synonym repo_id = "string \<times> string"

datatype request =
    Get_ref repo_id string
  | Put_gitkeep repo_id string
  | Post_blob repo_id string
  | Post_tree repo_id string "(string \<times> string) list"
  | Post_commit repo_id string nat string string
  | Patch_ref repo_id string string

datatype body = No_body | Json "string option"

datatype reply = Rejected "nat option" | Resolved body

text \<open>
  What an awaited host operation gives back when the task is resumed: the reply of the
  network, or whether a disk operation (\<^verbatim>\<open>vault.read\<close>, \<^verbatim>\<open>saveData\<close>) went through
  (its promise rejects otherwise).
\<close>

datatype answer = Net reply | Disk bool

datatype notice =
    Notice_conflict       \<comment> \<open>\<^verbatim>\<open>GitHub 409 Konflikt\<close>\<close>
  | Notice_error "nat option"  \<comment> \<open>\<^verbatim>\<open>GitHub Fehler <status>\<close>\<close>
  | Notice_published nat  \<comment> \<open>\<^verbatim>\<open>Published <n> Dateien\<close>\<close>

datatype callback = Cb_debounce | Cb_inactivity string | Cb_session

section \<open>The plugin state\<close>

text \<open>
  The fields of \<^verbatim>\<open>GitPublisherPlugin\<close> that the publishing code reads or writes,
  followed by the host state it acts on: the vault, the active file, the clock
  (\<^verbatim>\<open>Date.now()\<close>), the armed timeouts of \<^verbatim>\<open>window.setTimeout\<close> with the last handle
  given out, and three traces: the requests sent, the notices shown and the log file.
  \<^verbatim>\<open>pendingChanges\<close> is a JavaScript \<^verbatim>\<open>Map\<close> and \<^verbatim>\<open>publishQueue\<close> a \<^verbatim>\<open>Set\<close>: both
  keep insertion order, so they are lists. Left out are the status bar and the side
  panel (they only show the state), the unpublish path, the scan of the repository and
  the fields of the settings tab other than the auto-publish toggle.
\<close>

record plugin =
  settings :: GitPublisherSettings
  pendingChanges :: "(string \<times> bool) list"
  inactivityHandle :: "nat option"
  sessionHandle :: "nat option"
  sessionStart :: "nat option"
  lastActivityTime :: "nat option"
  publishingInProgress :: bool
  publishQueue :: "string list"
  debounceHandle :: "nat option"
  logPath :: "string option"
  vault :: "string \<Rightarrow> entry option"
  activeFile :: "string option"
  clock :: nat
  timers :: "(nat \<times> callback) list"
  timer_seq :: nat
  requests :: "request list"
  notices :: "notice list"
  logfile :: "(string \<times> string list) list"

definition map_set :: "string \<Rightarrow> bool \<Rightarrow> plugin \<Rightarrow> plugin" where
  \<comment> \<open>\<^verbatim>\<open>this.pendingChanges.set(p, v)\<close>: in place for a known key, appended otherwise\<close>
  "map_set p v s = s\<lparr>pendingChanges := AList.update p v (pendingChanges s)\<rparr>"

definition map_get :: "plugin \<Rightarrow> string \<Rightarrow> bool option" where
  \<comment> \<open>\<^verbatim>\<open>this.pendingChanges.get(p)\<close>\<close>
  "map_get s p = map_of (pendingChanges s) p"

definition isDirty :: "plugin \<Rightarrow> string \<Rightarrow> bool" where
  \<comment> \<open>the dirty flag of a path: \<^verbatim>\<open>!!this.pendingChanges.get(p)\<close>\<close>
  "isDirty s p \<longleftrightarrow> map_get s p = Some True"

definition set_add :: "string \<Rightarrow> string list \<Rightarrow> string list" where
  \<comment> \<open>\<^verbatim>\<open>Set.prototype.add\<close>\<close>
  "set_add p q = (if p \<in> set q then q else q @ [p])"

definition log_event :: "string \<Rightarrow> string list \<Rightarrow> plugin \<Rightarrow> plugin" where
  \<comment> \<open>\<^verbatim>\<open>log(msg, meta)\<close>: nothing without a log path; of the meta data the paths are kept\<close>
  "log_event msg meta s =
     (case logPath s of
        None \<Rightarrow> s
      | Some f \<Rightarrow> if f = [] then s else s\<lparr>logfile := logfile s @ [(msg, meta)]\<rparr>)"

definition show_notice :: "notice \<Rightarrow> plugin \<Rightarrow> plugin" where
  \<comment> \<open>\<^verbatim>\<open>new Notice(...)\<close>\<close>
  "show_notice n s = s\<lparr>notices := notices s @ [n]\<rparr>"

section \<open>Requests to GitHub\<close>

text \<open>
  \<^verbatim>\<open>githubReq\<close> has one await, on \<^verbatim>\<open>axios.request\<close>. \<open>github_send\<close> is the part
  before it, \<open>github_done\<close> the part after it: a body is logged and returned; a rejection
  is logged, shown as a notice (the conflict notice for status 409, the error notice
  otherwise) and turned into \<^verbatim>\<open>null\<close>.
\<close>

definition github_send :: "request \<Rightarrow> plugin \<Rightarrow> plugin" where
  "github_send r s = s\<lparr>requests := requests s @ [r]\<rparr>"

definition github_done :: "reply \<Rightarrow> plugin \<Rightarrow> plugin \<times> body" where
  "github_done r s =
     (case r of
        Resolved b \<Rightarrow> (log_event ''github_ok'' [] s, b)
      | Rejected st \<Rightarrow>
          (show_notice (if st = Some 409 then Notice_conflict else Notice_error st)
             (log_event ''github_err'' [] s), No_body))"

definition sha_of :: "body \<Rightarrow> string option" where
  \<comment> \<open>\<^verbatim>\<open>x?.sha\<close> where the code tests it for truth: a missing or empty id is none\<close>
  "sha_of b =
     (case b of
        No_body \<Rightarrow> None
      | Json None \<Rightarrow> None
      | Json (Some h) \<Rightarrow> if h = [] then None else Some h)"

definition ensureGitHubConfig :: "plugin \<Rightarrow> bool" where
  "ensureGitHubConfig s \<longleftrightarrow> repoUri (settings s) \<noteq> [] \<and> githubToken (settings s) \<noteq> []"

definition parseRepo :: "plugin \<Rightarrow> repo_id option" where
  "parseRepo s = (let u = repoUri (settings s) in if u = [] then None else match_repo u)"

section \<open>The batch run\<close>

text \<open>
  JavaScript runs a task without interruption from one await of a host operation to the
  next. The model cuts \<^verbatim>\<open>publishBatch\<close> (with \<^verbatim>\<open>ensureBranchExists\<close> and
  \<^verbatim>\<open>initializeBranch\<close> inlined) at these awaits. A value of \<open>await\<close> names the await a
  run is suspended at and holds the local variables that are live there. \<open>run\<close> holds the
  ones that never change: the snapshot \<^verbatim>\<open>paths\<close> and the parsed repository.
\<close>

record run =
  paths :: "string list"
  repo :: repo_id

datatype await =
    Await_ref run
      \<comment> \<open>\<^verbatim>\<open>ensureBranchExists\<close>: \<^verbatim>\<open>ref = await githubGet(refUrl)\<close>\<close>
  | Await_init run
      \<comment> \<open>\<^verbatim>\<open>initializeBranch\<close>: \<^verbatim>\<open>res = await githubPut(...)\<close>\<close>
  | Await_ref2 run
      \<comment> \<open>\<^verbatim>\<open>ref2 = await githubGet(refUrl)\<close>\<close>
  | Await_read run string "(string \<times> string) list" string "string list"
      \<comment> \<open>\<^verbatim>\<open>content = await vault.read(f)\<close>: base, blobs, the path, the paths after it\<close>
  | Await_blob run string "(string \<times> string) list" string "string list"
      \<comment> \<open>\<^verbatim>\<open>blob = await githubPost(.../git/blobs)\<close>\<close>
  | Await_tree run string
      \<comment> \<open>\<^verbatim>\<open>tree = await githubPost(.../git/trees)\<close>: base\<close>
  | Await_commit run
      \<comment> \<open>\<^verbatim>\<open>commit = await githubPost(.../git/commits)\<close>\<close>
  | Await_patch run string
      \<comment> \<open>\<^verbatim>\<open>updated = await githubPatch(.../git/refs/heads/...)\<close>: the commit\<close>
  | Await_save run string
      \<comment> \<open>\<^verbatim>\<open>await this.saveSettings()\<close>\<close>

fun run_of :: "await \<Rightarrow> run" where
  "run_of (Await_ref r) = r"
| "run_of (Await_init r) = r"
| "run_of (Await_ref2 r) = r"
| "run_of (Await_read r base blobs p rest) = r"
| "run_of (Await_blob r base blobs p rest) = r"
| "run_of (Await_tree r base) = r"
| "run_of (Await_commit r) = r"
| "run_of (Await_patch r c) = r"
| "run_of (Await_save r c) = r"

definition snapshot :: "await \<Rightarrow> string list" where
  "snapshot a = paths (run_of a)"

text \<open>How a part of a task ends: suspended at an await, returned, or left by an exception.\<close>

datatype 'w outcome = Blocked 'w | Returned | Threw

definition after_uploads ::
  "run \<Rightarrow> string \<Rightarrow> (string \<times> string) list \<Rightarrow> plugin \<Rightarrow> plugin \<times> await outcome" where
  \<comment> \<open>after the loop over the paths: \<^verbatim>\<open>if(!blobs.length) ... return\<close>, else the tree request\<close>
  "after_uploads r base blobs s =
     (if blobs = [] then (log_event ''batch_no_blobs'' [] s, Returned)
      else (github_send (Post_tree (repo r) base blobs) s, Blocked (Await_tree r base)))"

fun upload_loop ::
  "run \<Rightarrow> string \<Rightarrow> (string \<times> string) list \<Rightarrow> string list \<Rightarrow> plugin
     \<Rightarrow> plugin \<times> await outcome" where
  \<comment> \<open>\<^verbatim>\<open>for(const p of paths)\<close>, up to the next \<^verbatim>\<open>vault.read\<close>\<close>
  "upload_loop r base blobs [] s = after_uploads r base blobs s"
| "upload_loop r base blobs (p # rest) s =
     (case vault s p of
        Some (File f) \<Rightarrow> (s, Blocked (Await_read r base blobs p rest))
      | _ \<Rightarrow> upload_loop r base blobs rest (log_event ''skip_not_file'' [p] s))"

definition with_base :: "run \<Rightarrow> string option \<Rightarrow> plugin \<Rightarrow> plugin \<times> await outcome" where
  \<comment> \<open>\<^verbatim>\<open>publishBatch\<close> once \<^verbatim>\<open>ensureBranchExists\<close> has returned \<^verbatim>\<open>baseSha\<close>\<close>
  "with_base r base s =
     (case base of
        None \<Rightarrow> (log_event ''batch_abort_branch'' [] s, Returned)
      | Some h \<Rightarrow> upload_loop r h [] (paths r) s)"

definition publishBatch :: "string list \<Rightarrow> plugin \<Rightarrow> plugin \<times> await outcome" where
  \<comment> \<open>\<^verbatim>\<open>publishBatch(paths)\<close> up to its first await\<close>
  "publishBatch ps s =
     (let s1 = log_event ''batch_start'' [] s in
      case parseRepo s1 of
        None \<Rightarrow> (log_event ''batch_abort_parse'' [] s1, Returned)
      | Some pr \<Rightarrow>
          (github_send (Get_ref pr (defaultBranch (settings s1))) s1,
           Blocked (Await_ref \<lparr>paths = ps, repo = pr\<rparr>)))"

fun publishBatch_resume :: "await \<Rightarrow> answer \<Rightarrow> plugin \<Rightarrow> plugin \<times> await outcome" where
  "publishBatch_resume (Await_ref r) (Net y) s =
     (let (s1, b) = github_done y s in
      case sha_of b of
        Some h \<Rightarrow> with_base r (Some h) s1
      | None \<Rightarrow>
          (github_send (Put_gitkeep (repo r) (defaultBranch (settings s1))) s1,
           Blocked (Await_init r)))"
| "publishBatch_resume (Await_init r) (Net y) s =
     (let (s1, b) = github_done y s in
      if sha_of b = None then with_base r None s1
      else (github_send (Get_ref (repo r) (defaultBranch (settings s1))) s1,
            Blocked (Await_ref2 r)))"
| "publishBatch_resume (Await_ref2 r) (Net y) s =
     (let (s1, b) = github_done y s in with_base r (sha_of b) s1)"
| "publishBatch_resume (Await_read r base blobs p rest) (Disk ok) s =
     (case vault s p of
        Some (File f) \<Rightarrow>
          if ok then (github_send (Post_blob (repo r) (content f)) s,
                      Blocked (Await_blob r base blobs p rest))
          else (s, Threw)
      | _ \<Rightarrow> (s, Threw))"
| "publishBatch_resume (Await_blob r base blobs p rest) (Net y) s =
     (let (s1, b) = github_done y s in
      case sha_of b of
        Some h \<Rightarrow> upload_loop r base (blobs @ [(p, h)]) rest s1
      | None \<Rightarrow> upload_loop r base blobs rest (log_event ''blob_fail'' [p] s1))"
| "publishBatch_resume (Await_tree r base) (Net y) s =
     (let (s1, b) = github_done y s in
      case sha_of b of
        None \<Rightarrow> (log_event ''tree_fail'' [] s1, Returned)
      | Some t \<Rightarrow>
          (github_send
             (Post_commit (repo r) (batchCommitMessage (settings s1)) (clock s1) t base) s1,
           Blocked (Await_commit r)))"
| "publishBatch_resume (Await_commit r) (Net y) s =
     (let (s1, b) = github_done y s in
      case sha_of b of
        None \<Rightarrow> (log_event ''commit_fail'' [] s1, Returned)
      | Some c \<Rightarrow>
          (github_send (Patch_ref (repo r) (defaultBranch (settings s1)) c) s1,
           Blocked (Await_patch r c)))"
| "publishBatch_resume (Await_patch r c) (Net y) s =
     (let (s1, b) = github_done y s in
      if b \<noteq> No_body
      then (fold (\<lambda>p. map_set p False) (paths r) s1, Blocked (Await_save r c))
      else (log_event ''ref_fail'' [] s1, Returned))"
| "publishBatch_resume (Await_save r c) (Disk ok) s =
     (if ok
      then (show_notice (Notice_published (length (paths r)))
              (log_event ''batch_ok'' [c] s), Returned)
      else (s, Threw))"
| "publishBatch_resume a x s = (s, Blocked a)"

section \<open>Draining the queue\<close>

text \<open>
  \<^verbatim>\<open>processPublishQueue\<close>. \<open>settle\<close> is what follows \<^verbatim>\<open>await this.publishBatch(paths)\<close>:
  when the batch returned, the snapshot is deleted from the queue and the
  \<^verbatim>\<open>finally\<close> block lowers the in-flight flag; when it threw, only the \<^verbatim>\<open>finally\<close>
  block runs.
\<close>

definition lower_flag :: "plugin \<Rightarrow> plugin" where
  \<comment> \<open>the \<^verbatim>\<open>finally\<close> block\<close>
  "lower_flag s = s\<lparr>publishingInProgress := False\<rparr>"

definition delete_paths :: "string list \<Rightarrow> plugin \<Rightarrow> plugin" where
  \<comment> \<open>\<^verbatim>\<open>paths.forEach(p => this.publishQueue.delete(p))\<close>\<close>
  "delete_paths ps s = s\<lparr>publishQueue := fold removeAll ps (publishQueue s)\<rparr>"

definition settle :: "string list \<Rightarrow> plugin \<times> await outcome \<Rightarrow> plugin \<times> await outcome" where
  "settle ps x =
     (case x of
        (s, Blocked a) \<Rightarrow> (s, Blocked a)
      | (s, Returned) \<Rightarrow> (lower_flag (delete_paths ps s), Returned)
      | (s, Threw) \<Rightarrow> (lower_flag s, Threw))"

definition processPublishQueue :: "plugin \<Rightarrow> plugin \<times> await outcome" where
  "processPublishQueue s =
     (if publishingInProgress s then (s, Returned)
      else if \<not> ensureGitHubConfig s then (s, Returned)
      else
        (let s1 = s\<lparr>publishingInProgress := True\<rparr>; ps = publishQueue s1 in
         if ps = [] then (lower_flag s1, Returned)
         else settle ps (publishBatch ps s1)))"

definition processPublishQueue_resume ::
  "await \<Rightarrow> answer \<Rightarrow> plugin \<Rightarrow> plugin \<times> await outcome" where
  "processPublishQueue_resume a x s = settle (snapshot a) (publishBatch_resume a x s)"

section \<open>Enqueueing a file\<close>

fun str_includes :: "string \<Rightarrow> string \<Rightarrow> bool" where
  \<comment> \<open>\<^verbatim>\<open>p.includes(n)\<close>\<close>
  "str_includes n [] = (n = [])"
| "str_includes n (c # cs) = (strip_prefix n (c # cs) \<noteq> None \<or> str_includes n cs)"

definition isSafePath :: "string \<Rightarrow> bool" where
  \<comment> \<open>\<^verbatim>\<open>!p.startsWith('.') && !p.includes('..')\<close>\<close>
  "isSafePath p \<longleftrightarrow> strip_prefix ''.'' p = None \<and> \<not> str_includes ''..'' p"

definition stat_of :: "plugin \<Rightarrow> string \<Rightarrow> nat option" where
  \<comment> \<open>\<^verbatim>\<open>stat?.size\<close> where \<^verbatim>\<open>isTooLarge\<close> tests it for truth\<close>
  "stat_of s p =
     (case vault s p of
        Some (File f) \<Rightarrow>
          (case stat_size f of None \<Rightarrow> None | Some n \<Rightarrow> if n = 0 then None else Some n)
      | _ \<Rightarrow> None)"

definition over_limit :: "nat \<Rightarrow> plugin \<Rightarrow> bool" where
  \<comment> \<open>\<^verbatim>\<open>n > this.settings.maxFileSizeKB*1024\<close>\<close>
  "over_limit n s \<longleftrightarrow> int n > maxFileSizeKB (settings s) * 1024"

text \<open>
  A task of \<^verbatim>\<open>queueFileForPublish\<close> is suspended either in \<^verbatim>\<open>isTooLarge\<close>, at
  \<^verbatim>\<open>await this.app.vault.read(file)\<close>, or in the drain it started.
\<close>

datatype task_wait = Wait_size string | Wait_drain await

definition after_size :: "string \<Rightarrow> bool \<Rightarrow> plugin \<Rightarrow> plugin \<times> task_wait outcome" where
  \<comment> \<open>\<^verbatim>\<open>queueFileForPublish\<close> once \<^verbatim>\<open>isTooLarge\<close> has answered\<close>
  "after_size p large s =
     (if large then (log_event ''skip_large'' [p] s, Returned)
      else apsnd (map_outcome Wait_drain)
             (processPublishQueue (s\<lparr>publishQueue := set_add p (publishQueue s)\<rparr>)))"

definition queueFileForPublish :: "string \<Rightarrow> plugin \<Rightarrow> plugin \<times> task_wait outcome" where
  \<comment> \<open>\<^verbatim>\<open>queueFileForPublish(file)\<close> up to its first await; \<open>p\<close> is \<^verbatim>\<open>file.path\<close>\<close>
  "queueFileForPublish p s =
     (if \<not> isSafePath p then (s, Returned)
      else case stat_of s p of
             Some n \<Rightarrow> after_size p (over_limit n s) s
           | None \<Rightarrow> (s, Blocked (Wait_size p)))"

fun queueFileForPublish_resume ::
  "task_wait \<Rightarrow> answer \<Rightarrow> plugin \<Rightarrow> plugin \<times> task_wait outcome" where
  "queueFileForPublish_resume (Wait_size p) (Disk ok) s =
     (case vault s p of
        Some (File f) \<Rightarrow>
          if ok then after_size p (over_limit (length (content f)) s) s else (s, Threw)
      | _ \<Rightarrow> (s, Threw))"
| "queueFileForPublish_resume (Wait_size p) (Net y) s = (s, Blocked (Wait_size p))"
| "queueFileForPublish_resume (Wait_drain a) x s =
     apsnd (map_outcome Wait_drain) (processPublishQueue_resume a x s)"

lemma log_event_pendingChanges [simp]:
  "pendingChanges (log_event m xs s) = pendingChanges s"
  by (simp add: log_event_def split: option.splits)

lemma processPublishQueue_pendingChanges:
  "pendingChanges (fst (processPublishQueue s)) = pendingChanges s"
  by (simp add: processPublishQueue_def publishBatch_def settle_def lower_flag_def
      delete_paths_def github_send_def Let_def split: option.splits)

lemma queueFileForPublish_pendingChanges:
  "pendingChanges (fst (queueFileForPublish p s)) = pendingChanges s"
  by (simp add: queueFileForPublish_def after_size_def processPublishQueue_pendingChanges
      split: option.splits)

section \<open>Publishing everything pending\<close>

text \<open>
  The loop of \<^verbatim>\<open>publishAllPending\<close> walks the live entries of the \<^verbatim>\<open>Map\<close> by position:
  \<open>pending_loop i\<close> runs it from entry \<open>i\<close> on, up to the next await. It is suspended
  with the wait of the \<^verbatim>\<open>queueFileForPublish\<close> it awaits and the position to go on from.
\<close>

function pending_loop :: "nat \<Rightarrow> plugin \<Rightarrow> plugin \<times> (task_wait \<times> nat) outcome" where
  "pending_loop i s =
     (if i < length (pendingChanges s) then
        (case pendingChanges s ! i of
           (p, pen) \<Rightarrow>
             if \<not> pen then pending_loop (Suc i) s
             else
               (case vault s p of
                  Some (File f) \<Rightarrow>
                    (case queueFileForPublish p s of
                       (s1, Blocked w) \<Rightarrow> (s1, Blocked (w, Suc i))
                     | (s1, Returned) \<Rightarrow> pending_loop (Suc i) s1
                     | (s1, Threw) \<Rightarrow> (s1, Threw))
                | _ \<Rightarrow> pending_loop (Suc i) s))
      else (s, Returned))"
  by pat_completeness auto
termination
proof (relation "measure (\<lambda>(i, s). length (pendingChanges s) - i)")
  fix i :: nat and s :: plugin and x p pen x2 a f x1 s1 y
  assume "i < length (pendingChanges s)" and "(s1, y) = queueFileForPublish p s"
  then show "((Suc i, s1), i, s) \<in> measure (\<lambda>(i, s). length (pendingChanges s) - i)"
    using queueFileForPublish_pendingChanges [of p s] by (auto dest: arg_cong [where f = fst])
qed auto

declare pending_loop.simps [simp del]

definition publishAllPending :: "plugin \<Rightarrow> plugin \<times> (task_wait \<times> nat) outcome" where
  "publishAllPending s =
     (if \<not> autoPublishEnabled (settings s) then (s, Returned) else pending_loop 0 s)"

section \<open>Timers\<close>

definition setTimeout :: "callback \<Rightarrow> plugin \<Rightarrow> nat \<times> plugin" where
  \<comment> \<open>\<^verbatim>\<open>window.setTimeout\<close>: arms the callback under a new, positive handle\<close>
  "setTimeout cb s =
     (let h = Suc (timer_seq s)
      in (h, s\<lparr>timers := timers s @ [(h, cb)], timer_seq := h\<rparr>))"

definition clearTimeout :: "nat \<Rightarrow> plugin \<Rightarrow> plugin" where
  "clearTimeout h s = s\<lparr>timers := filter (\<lambda>t. fst t \<noteq> h) (timers s)\<rparr>"

definition clear_handle :: "nat option \<Rightarrow> plugin \<Rightarrow> plugin" where
  \<comment> \<open>\<^verbatim>\<open>if(h) clearTimeout(h)\<close>: \<^verbatim>\<open>null\<close> and 0 are falsy\<close>
  "clear_handle h s =
     (case h of None \<Rightarrow> s | Some n \<Rightarrow> if n = 0 then s else clearTimeout n s)"

definition clearTimers :: "plugin \<Rightarrow> plugin" where
  "clearTimers s =
     (let s1 = clear_handle (inactivityHandle s) s;
          s2 = clear_handle (sessionHandle s1) s1;
          s3 = clear_handle (debounceHandle s2) s2
      in s3\<lparr>inactivityHandle := None, sessionHandle := None, sessionStart := None,
            debounceHandle := None\<rparr>)"

definition resetDebounce :: "plugin \<Rightarrow> plugin" where
  "resetDebounce s =
     (let (h, s1) = setTimeout Cb_debounce (clear_handle (debounceHandle s) s)
      in s1\<lparr>debounceHandle := Some h\<rparr>)"

definition resetInactivityTimer :: "string \<Rightarrow> plugin \<Rightarrow> plugin" where
  "resetInactivityTimer p s =
     (let (h, s1) = setTimeout (Cb_inactivity p) (clear_handle (inactivityHandle s) s)
      in s1\<lparr>inactivityHandle := Some h\<rparr>)"

definition resetSessionTimer :: "plugin \<Rightarrow> plugin" where
  "resetSessionTimer s =
     (let (h, s1) = setTimeout Cb_session (clear_handle (sessionHandle s) s)
      in s1\<lparr>sessionHandle := Some h\<rparr>)"

definition handleEditorActivity :: "string \<Rightarrow> plugin \<Rightarrow> plugin" where
  "handleEditorActivity p s =
     (if \<not> autoPublishEnabled (settings s) then s
      else
        (let s1 = s\<lparr>lastActivityTime := Some (clock s)\<rparr>;
             s2 = (if sessionStart s1 = None \<or> sessionStart s1 = Some 0
                   then resetSessionTimer (s1\<lparr>sessionStart := Some (clock s1)\<rparr>)
                   else s1)
         in resetDebounce (resetInactivityTimer p s2)))"

definition has_published :: "plugin \<Rightarrow> string \<Rightarrow> bool" where
  \<comment> \<open>\<^verbatim>\<open>getFileCache(file)?.frontmatter?.published === true\<close>\<close>
  "has_published s p \<longleftrightarrow>
     (case vault s p of Some (File f) \<Rightarrow> published f = Some True | _ \<Rightarrow> False)"

definition publishFileIfPending :: "string \<Rightarrow> plugin \<Rightarrow> plugin \<times> task_wait outcome" where
  "publishFileIfPending p s =
     (if \<not> autoPublishEnabled (settings s) then (s, Returned)
      else if \<not> has_published s p then (s, Returned)
      else if map_get s p \<noteq> Some True then (s, Returned)
      else queueFileForPublish p s)"

definition on_modify :: "string \<Rightarrow> plugin \<Rightarrow> plugin" where
  \<comment> \<open>the handler of the vault's \<^verbatim>\<open>modify\<close> event\<close>
  "on_modify p s =
     (case vault s p of
        Some (File f) \<Rightarrow>
          if extension f \<noteq> ''md'' then s
          else if published f = Some True then map_set p True s else s
      | _ \<Rightarrow> s)"

definition vault_modify :: "string \<Rightarrow> string \<Rightarrow> nat option \<Rightarrow> plugin \<Rightarrow> plugin" where
  \<comment> \<open>the file at \<open>p\<close> is written (new text, new size), then the \<^verbatim>\<open>modify\<close> event fires\<close>
  "vault_modify p c z s =
     (case vault s p of
        Some (File f) \<Rightarrow>
          on_modify p (s\<lparr>vault := (vault s)(p \<mapsto> File (f\<lparr>content := c, stat_size := z\<rparr>))\<rparr>)
      | _ \<Rightarrow> s)"

section \<open>Tasks and the event loop\<close>

text \<open>
  A suspended task is the wait of its \<^verbatim>\<open>queueFileForPublish\<close> and what its caller does
  once that returns: nothing more that touches the state (\<open>Stop\<close>: a command, a button
  of the side panel, the inactivity callback), or the loop of \<^verbatim>\<open>publishAllPending\<close>
  from a given position (\<open>Loop\<close>), followed by \<^verbatim>\<open>clearTimers\<close> when the session
  callback called it. An exception ends the task: no caller catches it.
\<close>

datatype cont = Stop | Loop nat bool

datatype task = Task task_wait cont

definition after_loop :: "bool \<Rightarrow> plugin \<times> (task_wait \<times> nat) outcome \<Rightarrow> plugin \<times> task option" where
  "after_loop sess x =
     (case x of
        (s, Blocked (w, j)) \<Rightarrow> (s, Some (Task w (Loop j sess)))
      | (s, Returned) \<Rightarrow> (if sess then clearTimers s else s, None)
      | (s, Threw) \<Rightarrow> (s, None))"

definition go_on :: "cont \<Rightarrow> plugin \<times> task_wait outcome \<Rightarrow> plugin \<times> task option" where
  "go_on k x =
     (case x of
        (s, Blocked w) \<Rightarrow> (s, Some (Task w k))
      | (s, Threw) \<Rightarrow> (s, None)
      | (s, Returned) \<Rightarrow>
          (case k of Stop \<Rightarrow> (s, None) | Loop i sess \<Rightarrow> after_loop sess (pending_loop i s)))"

text \<open>
  The system is the state and the tasks started so far (\<open>None\<close> for one that has
  ended). An action is one turn of the event loop: a command or button, an event of the
  host, a timeout that fires, or a suspended task resumed with the answer of the
  operation it awaits.
\<close>

type_synonym system = "plugin \<times> task option list"

datatype action =
    Publish_current   \<comment> \<open>command \<^verbatim>\<open>gitpub-publish-current\<close>\<close>
  | Publish_all       \<comment> \<open>command \<^verbatim>\<open>gitpub-publish-all\<close>, button \<^verbatim>\<open>Alle publishen\<close>\<close>
  | View_publish string  \<comment> \<open>button \<^verbatim>\<open>Publish\<close> of a row of the side panel\<close>
  | Editor_change     \<comment> \<open>workspace event \<^verbatim>\<open>editor-change\<close>\<close>
  | Vault_modify string string "nat option"  \<comment> \<open>a file is written\<close>
  | Vault_put string "entry option"  \<comment> \<open>a path is created, deleted or gets new metadata\<close>
  | Open_file "string option"  \<comment> \<open>the active file changes\<close>
  | Fire nat          \<comment> \<open>the timeout with this handle fires\<close>
  | Set_auto_publish bool  \<comment> \<open>toggle \<^verbatim>\<open>Auto Publish\<close> of the settings tab\<close>
  | Unload            \<comment> \<open>\<^verbatim>\<open>onunload\<close>\<close>
  | Tick nat          \<comment> \<open>time passes\<close>
  | Resume nat answer \<comment> \<open>the awaited operation of a task completes\<close>

definition spawn :: "plugin \<times> task option \<Rightarrow> task option list \<Rightarrow> system" where
  "spawn x ts = (case x of (s, None) \<Rightarrow> (s, ts) | (s, Some t) \<Rightarrow> (s, ts @ [Some t]))"

definition fire :: "nat \<Rightarrow> system \<Rightarrow> system" where
  "fire h x =
     (case x of (s, ts) \<Rightarrow>
        (case map_of (timers s) h of
           None \<Rightarrow> (s, ts)
         | Some cb \<Rightarrow>
             (let s1 = clearTimeout h s in
              case cb of
                Cb_debounce \<Rightarrow> (s1, ts)
              | Cb_inactivity p \<Rightarrow> spawn (go_on Stop (publishFileIfPending p s1)) ts
              | Cb_session \<Rightarrow> spawn (after_loop True (publishAllPending s1)) ts)))"

definition resume :: "nat \<Rightarrow> answer \<Rightarrow> system \<Rightarrow> system" where
  "resume n x y =
     (case y of (s, ts) \<Rightarrow>
        if n < length ts then
          (case ts ! n of
             None \<Rightarrow> (s, ts)
           | Some (Task w k) \<Rightarrow>
               (case go_on k (queueFileForPublish_resume w x s) of
                  (s1, t1) \<Rightarrow> (s1, ts[n := t1])))
        else (s, ts))"

fun step :: "action \<Rightarrow> system \<Rightarrow> system" where
  "step Publish_current (s, ts) =
     (case activeFile s of
        None \<Rightarrow> (s, ts)
      | Some p \<Rightarrow> spawn (go_on Stop (queueFileForPublish p s)) ts)"
| "step Publish_all (s, ts) = spawn (after_loop False (publishAllPending s)) ts"
| "step (View_publish p) (s, ts) =
     (case vault s p of
        Some (File f) \<Rightarrow> spawn (go_on Stop (queueFileForPublish p s)) ts
      | _ \<Rightarrow> (s, ts))"
| "step Editor_change (s, ts) =
     (case activeFile s of None \<Rightarrow> (s, ts) | Some p \<Rightarrow> (handleEditorActivity p s, ts))"
| "step (Vault_modify p c z) (s, ts) = (vault_modify p c z s, ts)"
| "step (Vault_put p e) (s, ts) = (s\<lparr>vault := (vault s)(p := e)\<rparr>, ts)"
| "step (Open_file f) (s, ts) = (s\<lparr>activeFile := f\<rparr>, ts)"
| "step (Fire h) (s, ts) = fire h (s, ts)"
| "step (Set_auto_publish v) (s, ts) =
     (s\<lparr>settings := (settings s)\<lparr>autoPublishEnabled := v\<rparr>\<rparr>, ts)"
| "step Unload (s, ts) = (clearTimers s, ts)"
| "step (Tick n) (s, ts) = (s\<lparr>clock := clock s + n\<rparr>, ts)"
| "step (Resume n x) (s, ts) = resume n x (s, ts)"

definition exec :: "action list \<Rightarrow> system \<Rightarrow> system" where
  "exec as x = fold step as x"

text \<open>
  The plugin after \<^verbatim>\<open>onload\<close>, for given settings and a given vault: nothing pending,
  nothing queued, no timer, no task.
\<close>

definition booted :: "GitPublisherSettings \<Rightarrow> (string \<Rightarrow> entry option) \<Rightarrow> plugin" where
  "booted st v =
     \<lparr>settings = sanitizeSettings st, pendingChanges = [], inactivityHandle = None,
       sessionHandle = None, sessionStart = None, lastActivityTime = None,
       publishingInProgress = False, publishQueue = [], debounceHandle = None,
       logPath = Some ''gitpublish-log.ndjson'', vault = v, activeFile = None, clock = 1,
       timers = [], timer_seq = 0, requests = [], notices = [], logfile = []\<rparr>"

definition loaded :: "GitPublisherSettings \<Rightarrow> (string \<Rightarrow> entry option) \<Rightarrow> system" where
  "loaded st v = (booted st v, [])"

section \<open>A run among edits\<close>

text \<open>
  While a run is suspended the user goes on editing. \<open>drain_run\<close> drives one drain
  from a given await to its end: each item of the schedule holds the edits (path, new
  text, new size) that arrive while the run waits, then the answer it is resumed with.
  It stops when the drain returns or throws, or when the schedule is used up.
  \<open>drain\<close> does the same from the call of \<^verbatim>\<open>processPublishQueue\<close>.
\<close>

type_synonym edit = "string \<times> string \<times> nat option"

definition edits :: "edit list \<Rightarrow> plugin \<Rightarrow> plugin" where
  "edits es s = fold (\<lambda>e. case e of (p, c, z) \<Rightarrow> vault_modify p c z) es s"

fun drain_run :: "(edit list \<times> answer) list \<Rightarrow> await \<Rightarrow> plugin \<Rightarrow> plugin \<times> await outcome" where
  "drain_run [] a s = (s, Blocked a)"
| "drain_run ((es, x) # sched) a s =
     (case processPublishQueue_resume a x (edits es s) of
        (s1, Blocked a1) \<Rightarrow> drain_run sched a1 s1
      | (s1, Returned) \<Rightarrow> (s1, Returned)
      | (s1, Threw) \<Rightarrow> (s1, Threw))"

definition drain :: "(edit list \<times> answer) list \<Rightarrow> plugin \<Rightarrow> plugin \<times> await outcome" where
  "drain sched s =
     (case processPublishQueue s of
        (s1, Blocked a) \<Rightarrow> drain_run sched a s1
      | (s1, Returned) \<Rightarrow> (s1, Returned)
      | (s1, Threw) \<Rightarrow> (s1, Threw))"

text \<open>
  A run succeeds when its update of the branch ref does: the answer to
  \<^verbatim>\<open>githubPatch\<close> is a body (\<^verbatim>\<open>if(updated)\<close>). \<open>updates_ref\<close> says whether a run does
  so under a schedule.
\<close>

fun succeeded :: "await \<Rightarrow> answer \<Rightarrow> bool" where
  "succeeded (Await_patch r c) (Net (Resolved b)) = (b \<noteq> No_body)"
| "succeeded a x = False"

fun updates_ref :: "(edit list \<times> answer) list \<Rightarrow> await \<Rightarrow> plugin \<Rightarrow> bool" where
  "updates_ref [] a s = False"
| "updates_ref ((es, x) # sched) a s =
     (succeeded a x \<or>
      (case processPublishQueue_resume a x (edits es s) of
         (s1, Blocked a1) \<Rightarrow> updates_ref sched a1 s1
       | _ \<Rightarrow> False))"

definition quiet :: "answer list \<Rightarrow> (edit list \<times> answer) list" where
  \<comment> \<open>a schedule without edits\<close>
  "quiet xs = map (Pair []) xs"

text \<open>
  Two notions for the proofs about runs: a note whose edits the \<^verbatim>\<open>modify\<close> handler
  marks dirty, and the await after the ref update.
\<close>

definition published_md :: "plugin \<Rightarrow> string \<Rightarrow> bool" where
  "published_md s p \<longleftrightarrow>
     (case vault s p of
        Some (File f) \<Rightarrow> extension f = ''md'' \<and> published f = Some True
      | _ \<Rightarrow> False)"

fun saving :: "await \<Rightarrow> bool" where
  "saving (Await_save r c) = True"
| "saving a = False"

text \<open>
  Three notions for the end of a drain. \<open>ends_on_failure\<close> are the awaits of a run at
  which a failed request is the end of the run: the creation of the branch and the
  second look-up of its head (the branch cannot be resolved), the upload of the last path
  when no blob has been made (no blobs), the tree, the commit, and the update of the ref.
  \<open>failed\<close> says that the request a run waits for has failed: it is rejected, or its
  answer lacks what the run reads from it (\<^verbatim>\<open>if(updated)\<close> for the update of the ref,
  the \<^verbatim>\<open>sha\<close> for the others). \<open>readable\<close> says that a run that waits for
  \<^verbatim>\<open>vault.read\<close> waits for a file of the vault.
\<close>

fun ends_on_failure :: "await \<Rightarrow> bool" where
  "ends_on_failure (Await_init r) = True"
| "ends_on_failure (Await_ref2 r) = True"
| "ends_on_failure (Await_blob r base blobs p rest) = (blobs = [] \<and> rest = [])"
| "ends_on_failure (Await_tree r base) = True"
| "ends_on_failure (Await_commit r) = True"
| "ends_on_failure (Await_patch r c) = True"
| "ends_on_failure a = False"

fun failed :: "await \<Rightarrow> reply \<Rightarrow> bool" where
  "failed a (Rejected st) = True"
| "failed (Await_patch r c) (Resolved b) = (b = No_body)"
| "failed a (Resolved b) = (sha_of b = None)"

fun readable :: "await \<Rightarrow> plugin \<Rightarrow> bool" where
  "readable (Await_read r base blobs p rest) s =
     (case vault s p of Some (File f) \<Rightarrow> True | _ \<Rightarrow> False)"
| "readable a s = True"

section \<open>Invariants of the event loop\<close>

definition in_drain :: "task option \<Rightarrow> bool" where
  \<comment> \<open>the task is inside a batch run\<close>
  "in_drain t = (case t of Some (Task (Wait_drain a) k) \<Rightarrow> True | _ \<Rightarrow> False)"


definition tracked :: "plugin \<Rightarrow> bool" where
  \<comment> \<open>every armed timeout is held by one of the three handles\<close>
  "tracked s \<longleftrightarrow>
     list_all (\<lambda>t. fst t \<noteq> 0 \<and>
        (inactivityHandle s = Some (fst t) \<or> sessionHandle s = Some (fst t)
           \<or> debounceHandle s = Some (fst t))) (timers s)"

text \<open>
  \<open>publish_frame\<close> and \<open>host_frame\<close> say that a function of the state is blind to what
  a batch run, and a drain, write. \<open>begins\<close> and \<open>starts\<close> say how a part of a task may
  move the in-flight flag: it is raised exactly when the part ends inside a run it started.
  \<open>mutex\<close> ties the flag to the number of runs in flight. \<open>untouched\<close> says that no
  request was sent, no dirty flag changed and no path left the queue. \<open>is_request\<close> are
  the actions that ask for publishing: the commands, the buttons and the timeouts.
\<close>

definition publish_frame :: "(plugin \<Rightarrow> 'a) \<Rightarrow> bool" where
  "publish_frame f \<longleftrightarrow>
     (\<forall>m xs s. f (log_event m xs s) = f s) \<and> (\<forall>r s. f (github_send r s) = f s)
     \<and> (\<forall>n s. f (show_notice n s) = f s) \<and> (\<forall>p v s. f (map_set p v s) = f s)"

definition host_frame :: "(plugin \<Rightarrow> 'a) \<Rightarrow> bool" where
  "host_frame f \<longleftrightarrow>
     publish_frame f \<and> (\<forall>q s. f (s\<lparr>publishQueue := q\<rparr>) = f s)
     \<and> (\<forall>b s. f (s\<lparr>publishingInProgress := b\<rparr>) = f s)"




definition untouched :: "plugin \<Rightarrow> plugin \<Rightarrow> bool" where
  \<comment> \<open>no request was sent, no dirty flag changed and no path left the queue\<close>
  "untouched s s1 \<longleftrightarrow>
     requests s1 = requests s \<and> pendingChanges s1 = pendingChanges s
     \<and> set (publishQueue s) \<subseteq> set (publishQueue s1)"



definition armed :: "plugin \<Rightarrow> (nat \<times> callback) list \<times> nat option \<times> nat option \<times> nat option" where
  "armed s = (timers s, inactivityHandle s, sessionHandle s, debounceHandle s)"

text \<open>
  For the queue: it holds no path twice and only safe paths, and a task that waits for
  the size of a file waits for a safe path.
\<close>

definition good_queue :: "plugin \<Rightarrow> bool" where
  \<comment> \<open>the queue holds no path twice and only paths that pass \<^verbatim>\<open>isSafePath\<close>\<close>
  "good_queue s \<longleftrightarrow> distinct (publishQueue s) \<and> list_all isSafePath (publishQueue s)"

definition safe_wait :: "task_wait \<Rightarrow> bool" where
  "safe_wait w = (case w of Wait_size p \<Rightarrow> isSafePath p | Wait_drain a \<Rightarrow> True)"

definition safe_task :: "task option \<Rightarrow> bool" where
  "safe_task t = (case t of Some (Task w k) \<Rightarrow> safe_wait w | None \<Rightarrow> True)"

definition queue_ok :: "system \<Rightarrow> bool" where
  "queue_ok x \<longleftrightarrow> good_queue (fst x) \<and> list_all safe_task (snd x)"

definition safe_out :: "plugin \<times> task_wait outcome \<Rightarrow> bool" where
  "safe_out y \<longleftrightarrow>
     good_queue (fst y) \<and> (case snd y of Blocked w \<Rightarrow> safe_wait w | _ \<Rightarrow> True)"

definition safe_loop :: "plugin \<times> (task_wait \<times> nat) outcome \<Rightarrow> bool" where
  "safe_loop y \<longleftrightarrow>
     good_queue (fst y) \<and> (case snd y of Blocked (w, j) \<Rightarrow> safe_wait w | _ \<Rightarrow> True)"

definition safe_end :: "plugin \<times> task option \<Rightarrow> bool" where
  "safe_end y \<longleftrightarrow> good_queue (fst y) \<and> safe_task (snd y)"

section \<open>Example data\<close>

text \<open>
  A configured plugin over a small vault: three published notes and a draft without the
  \<^verbatim>\<open>published\<close> property. \<open>accepted\<close> and \<open>refused\<close> are the two kinds of reply.
\<close>

definition example_settings :: GitPublisherSettings where
  "example_settings = defaults\<lparr>repoUri := ''https://github.com/o/r'', githubToken := ''t''\<rparr>"

definition md_note :: "string \<Rightarrow> entry" where
  "md_note c = File \<lparr>extension = ''md'', content = c, stat_size = Some (length c),
     published = Some True\<rparr>"

definition example_vault :: "string \<Rightarrow> entry option" where
  "example_vault =
     [''a.md'' \<mapsto> md_note ''one'', ''b.md'' \<mapsto> md_note ''two'', ''c.md'' \<mapsto> md_note ''three'',
      ''draft.md'' \<mapsto> File \<lparr>extension = ''md'', content = ''wip'', stat_size = Some 3,
         published = None\<rparr>]"

definition example :: system where
  "example = loaded example_settings example_vault"

definition accepted :: "string \<Rightarrow> answer" where
  "accepted h = Net (Resolved (Json (Some h)))"

definition refused :: "nat \<Rightarrow> answer" where
  "refused n = Net (Rejected (Some n))"

definition one_run :: "string \<Rightarrow> answer list" where
  \<comment> \<open>the answers that carry a run over one path through to its end\<close>
  "one_run h =
     [accepted ''base'', Disk True, accepted (''blob-'' @ h), accepted (''tree-'' @ h),
      accepted (''commit-'' @ h), accepted ''ref'', Disk True]"

definition example_run :: run where
  "example_run = \<lparr>paths = [''a.md''], repo = (''o'', ''r'')\<rparr>"

definition pair_run :: run where
  "pair_run = \<lparr>paths = [''a.md'', ''b.md''], repo = (''o'', ''r'')\<rparr>"

definition up_to_patch :: "(edit list \<times> answer) list" where
  \<comment> \<open>the answers that carry a run over two paths up to the update of the ref\<close>
  "up_to_patch =
     quiet [accepted ''base'', Disk True, accepted ''blob-a'', Disk True, accepted ''blob-b'',
       accepted ''tree'', accepted ''commit'']"

definition up_to_commit :: "(edit list \<times> answer) list" where
  \<comment> \<open>the same up to the commit request\<close>
  "up_to_commit =
     quiet [accepted ''base'', Disk True, accepted ''blob-a'', Disk True, accepted ''blob-b'',
       accepted ''tree'']"

definition tree_refused :: "(edit list \<times> answer) list" where
  \<comment> \<open>both uploads succeed, the tree request is refused\<close>
  "tree_refused =
     quiet [accepted ''base'', Disk True, accepted ''blob-a'', Disk True, accepted ''blob-b'',
       refused 500]"

definition read_rejected :: "(edit list \<times> answer) list" where
  \<comment> \<open>the branch head is found, then \<^verbatim>\<open>vault.read\<close> rejects\<close>
  "read_rejected = quiet [accepted ''base'', Disk False]"

text \<open>Scenarios over the example, as lists of actions.\<close>

definition two_edits :: "action list" where
  "two_edits =
     [Vault_modify ''a.md'' ''one!'' (Some 4), Vault_modify ''b.md'' ''two!'' (Some 4)]"

definition publish_all_scenario :: "action list" where
  "publish_all_scenario =
     two_edits @ [Publish_all] @ map (Resume 0) (one_run ''a'')
       @ map (Resume 0)
           [accepted ''commit-a'', Disk True, accepted ''blob-b'', accepted ''tree-b'',
            accepted ''commit-b'', accepted ''ref'', Disk True]"

definition queued_pair :: "action list" where
  \<comment> \<open>two dirty notes are queued while a run for a third is in flight; that run then fails\<close>
  "queued_pair =
     two_edits @ [Open_file (Some ''c.md''), Publish_current, View_publish ''a.md'',
       View_publish ''b.md'', Resume 0 (refused 500), Resume 0 (refused 500)]"

definition failed_upload_scenario :: "action list" where
  \<comment> \<open>the next run takes both; the upload of the first fails with status 500\<close>
  "failed_upload_scenario =
     queued_pair @ [Publish_all, Resume 1 (accepted ''base''), Resume 1 (Disk True),
       Resume 1 (refused 500), Resume 1 (Disk True), Resume 1 (accepted ''blob-b''),
       Resume 1 (accepted ''tree''), Resume 1 (accepted ''commit''),
       Resume 1 (accepted ''ref''), Resume 1 (Disk True)]"

definition mid_run :: "action list" where
  \<comment> \<open>a run over \<^verbatim>\<open>a.md\<close> up to the upload of its text\<close>
  "mid_run =
     [Vault_modify ''a.md'' ''one!'' (Some 4), Publish_all, Resume 0 (accepted ''base''),
      Resume 0 (Disk True), Resume 0 (accepted ''blob-a'')]"

definition upload_then_edit :: "action list" where
  \<comment> \<open>then one more edit of the note\<close>
  "upload_then_edit = mid_run @ [Vault_modify ''a.md'' ''one!!'' (Some 5)]"

definition run_to_end :: "action list" where
  "run_to_end =
     [Resume 0 (accepted ''tree''), Resume 0 (accepted ''commit''), Resume 0 (accepted ''ref''),
      Resume 0 (Disk True)]"

definition up_to_save :: "action list" where
  \<comment> \<open>the same run up to \<^verbatim>\<open>saveSettings\<close>, after the ref has been updated\<close>
  "up_to_save =
     mid_run @ [Resume 0 (accepted ''tree''), Resume 0 (accepted ''commit''),
       Resume 0 (accepted ''ref'')]"




definition rejected_read :: "action list" where
  \<comment> \<open>a run for the dirty \<^verbatim>\<open>a.md\<close> whose \<^verbatim>\<open>vault.read\<close> rejects\<close>
  "rejected_read =
     [Vault_modify ''a.md'' ''one!'' (Some 4), View_publish ''a.md'',
      Resume 0 (accepted ''base''), Resume 0 (Disk False)]"

definition rejected_save :: "action list" where
  \<comment> \<open>a run for the dirty \<^verbatim>\<open>a.md\<close> that updates the ref; then \<^verbatim>\<open>saveSettings\<close> rejects\<close>
  "rejected_save =
     [Vault_modify ''a.md'' ''one!'' (Some 4), View_publish ''a.md'',
      Resume 0 (accepted ''base''), Resume 0 (Disk True), Resume 0 (accepted ''blob-a''),
      Resume 0 (accepted ''tree''), Resume 0 (accepted ''commit''), Resume 0 (accepted ''ref''),
      Resume 0 (Disk False)]"

definition unrelated_request :: "action list" where
  \<comment> \<open>the command is invoked on \<^verbatim>\<open>c.md\<close>; the new run goes on to its first upload\<close>
  "unrelated_request =
     [Open_file (Some ''c.md''), Publish_current, Resume 1 (accepted ''base''),
      Resume 1 (Disk True)]"

definition typing_then_disabled :: "action list" where
  "typing_then_disabled = [Open_file (Some ''a.md''), Editor_change, Set_auto_publish False]"


definition grown :: plugin where
  \<comment> \<open>the example after \<^verbatim>\<open>a.md\<close> has grown to two million bytes\<close>
  "grown =
     (booted example_settings example_vault)
       \<lparr>pendingChanges := [(''a.md'', True)],
        vault := example_vault(''a.md'' \<mapsto>
          File \<lparr>extension = ''md'', content = ''one'', stat_size = Some 2000000,
            published = Some True\<rparr>)\<rparr>"

section \<open>Properties of the sanitization\<close>

lemma valid_branch_main: "valid_branch ''main''"
  by (simp add: valid_branch_def branch_char_def alnum_char_def)

text \<open>
  C9, as amended. After \<^verbatim>\<open>sanitizeSettings\<close>, for every settings value, the
  inactivity window is at least 5, the session window at least 1, the debounce window at
  least 250 and the maximal file size at least 50; an invalid repository URL is reset to
  the empty default and auto-publish is switched off; an invalid branch name is reset to
  \<^verbatim>\<open>main\<close>, and the branch name alone never changes the auto-publish flag: with a
  valid URL the flag keeps its value.
\<close>

theorem sanitizeSettings_bounds:
  "5 \<le> inactivityDelaySec (sanitizeSettings st)
   \<and> 1 \<le> maxIntervalMin (sanitizeSettings st)
   \<and> 250 \<le> debounceMs (sanitizeSettings st)
   \<and> 50 \<le> maxFileSizeKB (sanitizeSettings st)
   \<and> (if valid_repo (repoUri st)
        then repoUri (sanitizeSettings st) = repoUri st
           \<and> autoPublishEnabled (sanitizeSettings st) = autoPublishEnabled st
        else repoUri (sanitizeSettings st) = []
           \<and> autoPublishEnabled (sanitizeSettings st) = False)
   \<and> (if valid_branch (defaultBranch st)
        then defaultBranch (sanitizeSettings st) = defaultBranch st
        else defaultBranch (sanitizeSettings st) = ''main'')
   \<and> valid_branch (defaultBranch (sanitizeSettings st))"
  by (simp add: sanitizeSettings_def Let_def valid_branch_main)

theorem sanitizeSettings_bounds_witness:
  "inactivityDelaySec (sanitizeSettings (defaults\<lparr>repoUri := ''ftp://x'', debounceMs := 3\<rparr>)) = 30
   \<and> debounceMs (sanitizeSettings (defaults\<lparr>repoUri := ''ftp://x'', debounceMs := 3\<rparr>)) = 250
   \<and> repoUri (sanitizeSettings (defaults\<lparr>repoUri := ''ftp://x'', debounceMs := 3\<rparr>)) = []
   \<and> autoPublishEnabled (sanitizeSettings (defaults\<lparr>repoUri := ''ftp://x'', debounceMs := 3\<rparr>))
       = False"
  using sanitizeSettings_bounds [of "defaults\<lparr>repoUri := ''ftp://x'', debounceMs := 3\<rparr>"]
  by (simp add: sanitizeSettings_def Let_def defaults_def valid_repo_def match_repo_def
      valid_branch_main)

text \<open>
  The claim as written fails for the branch name: an invalid branch name with a valid
  repository URL leaves auto-publish enabled.
\<close>

theorem sanitizeSettings_branch_counterexample:
  "\<not> valid_branch ''my branch''
   \<and> autoPublishEnabled (sanitizeSettings
        (defaults\<lparr>repoUri := ''https://github.com/o/r'', defaultBranch := ''my branch''\<rparr>))
     = True
   \<and> defaultBranch (sanitizeSettings
        (defaults\<lparr>repoUri := ''https://github.com/o/r'', defaultBranch := ''my branch''\<rparr>))
     = ''main''"
  by (simp add: sanitizeSettings_def Let_def defaults_def valid_repo_def match_repo_def
      valid_branch_def branch_char_def repo_char_def alnum_char_def)

section \<open>What a run does to the dirty flags\<close>

lemma show_notice_pendingChanges [simp]:
  "pendingChanges (show_notice n s) = pendingChanges s"
  by (simp add: show_notice_def)

lemma github_send_pendingChanges [simp]:
  "pendingChanges (github_send r s) = pendingChanges s"
  by (simp add: github_send_def)

lemma github_done_pendingChanges [simp]:
  "pendingChanges (fst (github_done y s)) = pendingChanges s"
  by (simp add: github_done_def split: reply.splits)

lemma upload_loop_pendingChanges [simp]:
  "pendingChanges (fst (upload_loop r base blobs todo s)) = pendingChanges s"
  by (induction todo arbitrary: s)
     (simp_all add: after_uploads_def split: option.splits entry.splits)

lemma with_base_pendingChanges [simp]:
  "pendingChanges (fst (with_base r base s)) = pendingChanges s"
  by (simp add: with_base_def split: option.splits)

lemma clear_all_pendingChanges:
  "pendingChanges (fold (\<lambda>p. map_set p False) ps s)
     = fold (\<lambda>p. AList.update p False) ps (pendingChanges s)"
  by (induction ps arbitrary: s) (simp_all add: map_set_def)

lemma map_of_clear_all:
  "map_of (fold (\<lambda>p. AList.update p False) ps m) q
     = (if q \<in> set ps then Some False else map_of m q)"
  by (induction ps arbitrary: m) (auto simp: update_conv')

lemma publishBatch_resume_quiet:
  "\<not> succeeded a x \<Longrightarrow> pendingChanges (fst (publishBatch_resume a x s)) = pendingChanges s"
  by (cases "(a, x, s)" rule: publishBatch_resume.cases)
     (auto simp: split_def Let_def github_done_def
           split: option.splits entry.splits reply.splits)

lemma publishBatch_resume_clears:
  "succeeded a x \<Longrightarrow>
     pendingChanges (fst (publishBatch_resume a x s))
       = fold (\<lambda>p. AList.update p False) (snapshot a) (pendingChanges s)"
  by (cases "(a, x)" rule: succeeded.cases)
     (auto simp: split_def Let_def snapshot_def clear_all_pendingChanges github_done_def)

lemma settle_pendingChanges [simp]:
  "pendingChanges (fst (settle ps y)) = pendingChanges (fst y)"
  by (cases y) (auto simp: settle_def lower_flag_def delete_paths_def split: outcome.splits)

lemma resume_map_get:
  "map_get (fst (processPublishQueue_resume a x s)) p
     = (if p \<in> set (snapshot a) \<and> succeeded a x then Some False else map_get s p)"
  by (cases "succeeded a x")
     (simp_all add: processPublishQueue_resume_def map_get_def publishBatch_resume_quiet
        publishBatch_resume_clears map_of_clear_all)

subsection \<open>The run keeps its snapshot\<close>

lemma upload_loop_run_of:
  "upload_loop r base blobs todo s = (s1, Blocked a1) \<Longrightarrow> run_of a1 = r"
  by (induction todo arbitrary: s blobs)
     (auto simp: after_uploads_def split: option.splits entry.splits if_splits)

lemma with_base_run_of: "with_base r base s = (s1, Blocked a1) \<Longrightarrow> run_of a1 = r"
  by (auto simp: with_base_def upload_loop_run_of split: option.splits)

lemma publishBatch_resume_run_of:
  "publishBatch_resume a x s = (s1, Blocked a1) \<Longrightarrow> run_of a1 = run_of a"
  by (cases "(a, x, s)" rule: publishBatch_resume.cases)
     (auto simp: split_def Let_def upload_loop_run_of with_base_run_of
           split: option.splits entry.splits if_splits)

lemma settle_Blocked: "settle ps y = (s1, Blocked a1) \<longleftrightarrow> y = (s1, Blocked a1)"
  by (cases y) (auto simp: settle_def split: outcome.splits)

lemma resume_snapshot:
  "processPublishQueue_resume a x s = (s1, Blocked a1) \<Longrightarrow> snapshot a1 = snapshot a"
  by (simp add: processPublishQueue_resume_def settle_Blocked snapshot_def
      publishBatch_resume_run_of)

lemma drain_run_snapshot:
  "drain_run sched a s = (s1, Blocked a1) \<Longrightarrow> snapshot a1 = snapshot a"
proof (induction sched arbitrary: a s)
  case Nil
  then show ?case by simp
next
  case (Cons item sched)
  obtain es x where item: "item = (es, x)" by (cases item)
  obtain s2 out where res: "processPublishQueue_resume a x (edits es s) = (s2, out)"
    by (cases "processPublishQueue_resume a x (edits es s)")
  from Cons.prems item res obtain a2 where out: "out = Blocked a2"
    and rest: "drain_run sched a2 s2 = (s1, Blocked a1)"
    by (cases out) auto
  show ?case using Cons.IH [OF rest] resume_snapshot res out by simp
qed

lemma processPublishQueue_Blocked:
  "processPublishQueue s = (s1, Blocked a) \<Longrightarrow> snapshot a = publishQueue s"
  by (auto simp: processPublishQueue_def publishBatch_def settle_def snapshot_def Let_def
        split: if_splits option.splits)

subsection \<open>Edits only mark paths dirty\<close>

lemma vault_modify_isDirty: "isDirty s p \<Longrightarrow> isDirty (vault_modify q c z s) p"
  by (auto simp: vault_modify_def on_modify_def isDirty_def map_get_def map_set_def
        update_conv' split: option.splits entry.splits)

lemma edits_isDirty: "isDirty s p \<Longrightarrow> isDirty (edits es s) p"
  unfolding edits_def
  by (induction es arbitrary: s) (auto simp: vault_modify_isDirty)

lemma edits_Nil [simp]: "edits [] s = s"
  by (simp add: edits_def)

lemma edits_append: "edits (es @ es') s = edits es' (edits es s)"
  by (simp add: edits_def)

lemma edits_Cons: "edits ((p, c, z) # es) s = edits es (vault_modify p c z s)"
  by (simp add: edits_def)

lemma vault_modify_published_md:
  "published_md s p \<Longrightarrow> published_md (vault_modify q c z s) p"
  by (auto simp: published_md_def vault_modify_def on_modify_def map_set_def
        split: option.splits entry.splits)

lemma edits_published_md: "published_md s p \<Longrightarrow> published_md (edits es s) p"
  unfolding edits_def
  by (induction es arbitrary: s) (auto simp: vault_modify_published_md)

lemma vault_modify_marks: "published_md s p \<Longrightarrow> isDirty (vault_modify p c z s) p"
  by (auto simp: published_md_def vault_modify_def on_modify_def map_set_def isDirty_def
        map_get_def update_conv' split: option.splits entry.splits)

lemma edits_notices [simp]: "notices (edits es s) = notices s"
  unfolding edits_def
  by (induction es arbitrary: s)
     (auto simp: vault_modify_def on_modify_def map_set_def split: option.splits entry.splits)

subsection \<open>Dirty flags along a run\<close>

lemma resume_isDirty:
  "p \<notin> set (snapshot a) \<or> \<not> succeeded a x \<Longrightarrow> isDirty s p \<Longrightarrow>
     isDirty (fst (processPublishQueue_resume a x s)) p"
  by (auto simp: isDirty_def resume_map_get)

lemma dirty_survives_run:
  "p \<notin> set (snapshot a) \<or> \<not> updates_ref sched a s \<Longrightarrow> isDirty s p \<Longrightarrow>
     isDirty (fst (drain_run sched a s)) p"
proof (induction sched arbitrary: a s)
  case Nil
  then show ?case by simp
next
  case (Cons item sched)
  obtain es x where item: "item = (es, x)" by (cases item)
  let ?s0 = "edits es s"
  obtain s1 out where res: "processPublishQueue_resume a x ?s0 = (s1, out)"
    by (cases "processPublishQueue_resume a x ?s0")
  have ok: "p \<notin> set (snapshot a) \<or> \<not> succeeded a x"
    using Cons.prems(1) item by auto
  have d0: "isDirty ?s0 p" using Cons.prems(2) by (rule edits_isDirty)
  have d1: "isDirty s1 p" using resume_isDirty [OF ok d0] res by simp
  show ?case
  proof (cases out)
    case (Blocked a1)
    have snap: "snapshot a1 = snapshot a" using res Blocked by (auto dest: resume_snapshot)
    have "p \<notin> set (snapshot a1) \<or> \<not> updates_ref sched a1 s1"
      using Cons.prems(1) item res Blocked snap by auto
    from Cons.IH [OF this d1] show ?thesis using item res Blocked by simp
  next
    case Returned
    then show ?thesis using item res d1 by simp
  next
    case Threw
    then show ?thesis using item res d1 by simp
  qed
qed

text \<open>
  C6. A successful batch run clears the dirty flag exactly for the paths of its snapshot.
  For a run that is driven by any list of answers with no edit in between, from any
  await and any state: after it, the flag of a path is \<^verbatim>\<open>false\<close> when the path is in the
  snapshot and the run updated the branch ref, and is what it was before in every other
  case; so a path outside the snapshot keeps its flag, and so does every path when the
  run fails.
\<close>

theorem run_clears_exactly_its_snapshot:
  "map_get (fst (drain_run (quiet xs) a s)) p
     = (if p \<in> set (snapshot a) \<and> updates_ref (quiet xs) a s then Some False
        else map_get s p)"
proof (induction xs arbitrary: a s)
  case Nil
  then show ?case by (simp add: quiet_def)
next
  case (Cons x xs)
  obtain s1 out where res: "processPublishQueue_resume a x s = (s1, out)"
    by (cases "processPublishQueue_resume a x s")
  have step: "map_get s1 p
      = (if p \<in> set (snapshot a) \<and> succeeded a x then Some False else map_get s p)"
    using resume_map_get [of a x s p] res by simp
  show ?case
  proof (cases out)
    case (Blocked a1)
    have snap: "snapshot a1 = snapshot a" using res Blocked by (auto dest: resume_snapshot)
    have "map_get (fst (drain_run (quiet xs) a1 s1)) p
        = (if p \<in> set (snapshot a1) \<and> updates_ref (quiet xs) a1 s1 then Some False
           else map_get s1 p)"
      by (rule Cons.IH)
    then show ?thesis using res Blocked snap step by (auto simp: quiet_def)
  next
    case Returned
    then show ?thesis using res step by (auto simp: quiet_def)
  next
    case Threw
    then show ?thesis using res step by (auto simp: quiet_def)
  qed
qed

text \<open>
  The example: both notes are dirty, the run is over \<^verbatim>\<open>a.md\<close> alone and succeeds.
\<close>

theorem run_clears_exactly_its_snapshot_witness:
  "map_get (fst (exec (two_edits @ [Publish_all]) example)) ''a.md'' = Some True
   \<and> map_get
       (fst (drain_run (quiet (one_run ''a'')) (Await_ref example_run)
          (fst (exec (two_edits @ [Publish_all]) example)))) ''a.md'' = Some False
   \<and> map_get
       (fst (drain_run (quiet (one_run ''a'')) (Await_ref example_run)
          (fst (exec (two_edits @ [Publish_all]) example)))) ''b.md'' = Some True"
proof -
  let ?s = "fst (exec (two_edits @ [Publish_all]) example)"
  let ?a = "Await_ref example_run"
  have u: "updates_ref (quiet (one_run ''a'')) ?a ?s" by code_simp
  have a: "map_get ?s ''a.md'' = Some True" by code_simp
  have b: "map_get ?s ''b.md'' = Some True" by code_simp
  have sn: "snapshot ?a = [''a.md'']" by (simp add: snapshot_def example_run_def)
  show ?thesis
    using run_clears_exactly_its_snapshot [of "one_run ''a''" ?a ?s "''a.md''"]
      run_clears_exactly_its_snapshot [of "one_run ''a''" ?a ?s "''b.md''"] u a b sn
    by simp
qed

text \<open>
  C2, as amended. An edit of a published note that arrives while a run waits marks the
  note dirty, and the mark is still there when the run ends, however it ends, provided
  the note is not in the run's snapshot or the run does not update the branch ref after
  the edit: the update fails, is never reached, or was made before the edit came. The
  edit may come at any await (\<open>a\<close> and \<open>s\<close> are arbitrary), among other edits, and more
  edits may follow.
\<close>

theorem late_dirty_mark_survives:
  assumes "published_md s p"
    and "p \<notin> set (snapshot a) \<or> \<not> updates_ref ((es @ (p, c, z) # es', x) # sched) a s"
  shows "isDirty (fst (drain_run ((es @ (p, c, z) # es', x) # sched) a s)) p"
proof -
  let ?s1 = "vault_modify p c z (edits es s)"
  have "isDirty ?s1 p"
    using assms(1) by (simp add: edits_published_md vault_modify_marks)
  then have d: "isDirty (edits (es @ (p, c, z) # es') s) p"
    by (simp add: edits_append edits_Cons edits_isDirty)
  have ok: "p \<notin> set (snapshot a) \<or> \<not> succeeded a x"
    using assms(2) by auto
  obtain s2 out where res:
    "processPublishQueue_resume a x (edits (es @ (p, c, z) # es') s) = (s2, out)"
    by (cases "processPublishQueue_resume a x (edits (es @ (p, c, z) # es') s)")
  have d2: "isDirty s2 p" using resume_isDirty [OF ok d] res by simp
  show ?thesis
  proof (cases out)
    case (Blocked a1)
    have snap: "snapshot a1 = snapshot a" using res Blocked by (auto dest: resume_snapshot)
    have "p \<notin> set (snapshot a1) \<or> \<not> updates_ref sched a1 s2"
      using assms(2) res Blocked snap by auto
    from dirty_survives_run [OF this d2] show ?thesis using res Blocked by simp
  next
    case Returned
    then show ?thesis using res d2 by simp
  next
    case Threw
    then show ?thesis using res d2 by simp
  qed
qed

text \<open>
  Two examples. \<^verbatim>\<open>b.md\<close>, which is not in the snapshot, is edited while the run over
  \<^verbatim>\<open>a.md\<close> waits for its tree, and the run succeeds. \<^verbatim>\<open>a.md\<close>, which is in the
  snapshot, is edited while the same run waits for \<^verbatim>\<open>saveSettings\<close>, after it has
  updated the ref and marked \<^verbatim>\<open>a.md\<close> clean.
\<close>

theorem late_dirty_mark_survives_witness:
  "\<not> isDirty (fst (exec mid_run example)) ''b.md''
   \<and> isDirty
       (fst (drain_run
          (([(''b.md'', ''two!'', Some 4)], accepted ''tree'')
             # quiet [accepted ''commit'', accepted ''ref'', Disk True])
          (Await_tree example_run ''base'') (fst (exec mid_run example)))) ''b.md''
   \<and> snd (exec up_to_save example)
       = [Some (Task (Wait_drain (Await_save example_run ''commit'')) (Loop 1 False))]
   \<and> \<not> isDirty (fst (exec up_to_save example)) ''a.md''
   \<and> snd (drain_run [([(''a.md'', ''one!!'', Some 5)], Disk True)]
        (Await_save example_run ''commit'') (fst (exec up_to_save example))) = Returned
   \<and> isDirty
       (fst (drain_run [([(''a.md'', ''one!!'', Some 5)], Disk True)]
          (Await_save example_run ''commit'') (fst (exec up_to_save example)))) ''a.md''"
proof -
  let ?s = "fst (exec mid_run example)"
  let ?a = "Await_tree example_run ''base''"
  let ?sched = "quiet [accepted ''commit'', accepted ''ref'', Disk True]"
  have h1: "published_md ?s ''b.md''" by code_simp
  have h2: "''b.md'' \<notin> set (snapshot ?a)
      \<or> \<not> updates_ref (([] @ (''b.md'', ''two!'', Some 4) # [], accepted ''tree'') # ?sched) ?a ?s"
    by (simp add: snapshot_def example_run_def)
  have a: "isDirty
       (fst (drain_run (([] @ (''b.md'', ''two!'', Some 4) # [], accepted ''tree'') # ?sched)
          ?a ?s)) ''b.md''"
    using late_dirty_mark_survives [OF h1 h2] .
  have b: "\<not> isDirty ?s ''b.md''" by code_simp
  let ?t = "fst (exec up_to_save example)"
  let ?w = "Await_save example_run ''commit''"
  have k1: "published_md ?t ''a.md''" by code_simp
  have "\<not> updates_ref [([] @ (''a.md'', ''one!!'', Some 5) # [], Disk True)] ?w ?t"
    by (simp add: processPublishQueue_resume_def settle_def)
  then have k2: "''a.md'' \<notin> set (snapshot ?w)
      \<or> \<not> updates_ref [([] @ (''a.md'', ''one!!'', Some 5) # [], Disk True)] ?w ?t"
    by simp
  have c: "isDirty
       (fst (drain_run [([] @ (''a.md'', ''one!!'', Some 5) # [], Disk True)] ?w ?t)) ''a.md''"
    using late_dirty_mark_survives [OF k1 k2] .
  have d: "snd (exec up_to_save example) = [Some (Task (Wait_drain ?w) (Loop 1 False))]"
    by code_simp
  have e: "\<not> isDirty ?t ''a.md''" by code_simp
  have f: "snd (drain_run [([(''a.md'', ''one!!'', Some 5)], Disk True)] ?w ?t) = Returned"
    by (simp add: processPublishQueue_resume_def settle_def)
  show ?thesis using a b c d e f by (simp only: append_Nil simp_thms)
qed

text \<open>
  The claim as written fails for a path of the snapshot: \<^verbatim>\<open>a.md\<close> is edited after the
  run has uploaded its text; the run succeeds and marks it clean, although the text in
  the vault is no longer the text that was committed.
\<close>

theorem late_edit_lost_counterexample:
  "snd (exec upload_then_edit example)
     = [Some (Task (Wait_drain (Await_tree \<lparr>paths = [''a.md''], repo = (''o'', ''r'')\<rparr> ''base''))
          (Loop 1 False))]
   \<and> isDirty (fst (exec upload_then_edit example)) ''a.md''
   \<and> \<not> isDirty (fst (exec (upload_then_edit @ run_to_end) example)) ''a.md''
   \<and> vault (fst (exec (upload_then_edit @ run_to_end) example)) ''a.md''
       = Some (File \<lparr>extension = ''md'', content = ''one!!'', stat_size = Some 5,
           published = Some True\<rparr>)
   \<and> requests (fst (exec (upload_then_edit @ run_to_end) example)) =
       [Get_ref (''o'', ''r'') ''main'',
        Post_blob (''o'', ''r'') ''one!'',
        Post_tree (''o'', ''r'') ''base'' [(''a.md'', ''blob-a'')],
        Post_commit (''o'', ''r'') ''Publish'' 1 ''tree'' ''base'',
        Patch_ref (''o'', ''r'') ''main'' ''commit'']
   \<and> snd (exec (upload_then_edit @ run_to_end) example) = [None]"
  by code_simp

text \<open>
  C1. A path whose upload fails is left out of the tree, but when the ref update
  succeeds the loop \<^verbatim>\<open>for(const p of paths) this.pendingChanges.set(p,false)\<close> runs over the
  whole snapshot. Here two dirty notes are queued and drained together; the upload of
  \<^verbatim>\<open>a.md\<close> is refused, the commit holds \<^verbatim>\<open>b.md\<close> alone, and \<^verbatim>\<open>a.md\<close> ends clean.
\<close>

theorem failed_upload_marked_clean:
  "publishQueue (fst (exec queued_pair example)) = [''a.md'', ''b.md'']
   \<and> pendingChanges (fst (exec queued_pair example)) = [(''a.md'', True), (''b.md'', True)]
   \<and> requests (fst (exec failed_upload_scenario example)) =
       [Get_ref (''o'', ''r'') ''main'', Put_gitkeep (''o'', ''r'') ''main'',
        Get_ref (''o'', ''r'') ''main'',
        Post_blob (''o'', ''r'') ''one!'',
        Post_blob (''o'', ''r'') ''two!'',
        Post_tree (''o'', ''r'') ''base'' [(''b.md'', ''blob-b'')],
        Post_commit (''o'', ''r'') ''Publish'' 1 ''tree'' ''base'',
        Patch_ref (''o'', ''r'') ''main'' ''commit'']
   \<and> pendingChanges (fst (exec failed_upload_scenario example))
       = [(''a.md'', False), (''b.md'', False)]
   \<and> isDirty (fst (exec failed_upload_scenario example)) ''a.md'' = False
   \<and> publishQueue (fst (exec failed_upload_scenario example)) = []"
  by code_simp

subsection \<open>After the ref update the run only saves\<close>

lemma upload_loop_not_saving:
  "upload_loop r base blobs todo s = (s1, Blocked a1) \<Longrightarrow> \<not> saving a1"
  by (induction todo arbitrary: s blobs)
     (auto simp: after_uploads_def split: option.splits entry.splits if_splits)

lemma resume_saving:
  "processPublishQueue_resume a x s = (s1, Blocked a1) \<Longrightarrow>
     saving a1 \<longleftrightarrow> saving a \<or> succeeded a x"
  by (cases "(a, x, s)" rule: publishBatch_resume.cases)
     (auto simp: processPublishQueue_resume_def settle_Blocked split_def Let_def with_base_def
           github_done_def
           dest: upload_loop_not_saving
           split: option.splits entry.splits if_splits reply.splits)

lemma saving_not_succeeded: "saving a \<Longrightarrow> \<not> succeeded a x"
  by (cases "(a, x)" rule: succeeded.cases) auto

lemma saving_stays: "saving a \<Longrightarrow> drain_run sched a s = (s1, Blocked a1) \<Longrightarrow> saving a1"
proof (induction sched arbitrary: a s)
  case Nil
  then show ?case by simp
next
  case (Cons item sched)
  obtain es x where item: "item = (es, x)" by (cases item)
  obtain s2 out where res: "processPublishQueue_resume a x (edits es s) = (s2, out)"
    by (cases "processPublishQueue_resume a x (edits es s)")
  from Cons.prems(2) item res obtain a2 where out: "out = Blocked a2"
    and rest: "drain_run sched a2 s2 = (s1, Blocked a1)"
    by (cases out) auto
  have "saving a2" using resume_saving res out Cons.prems(1) by blast
  from Cons.IH [OF this rest] show ?case .
qed

lemma not_yet_updated:
  "drain_run sched a s = (s1, Blocked a1) \<Longrightarrow> \<not> saving a1 \<Longrightarrow> \<not> updates_ref sched a s"
proof (induction sched arbitrary: a s)
  case Nil
  then show ?case by simp
next
  case (Cons item sched)
  obtain es x where item: "item = (es, x)" by (cases item)
  obtain s2 out where res: "processPublishQueue_resume a x (edits es s) = (s2, out)"
    by (cases "processPublishQueue_resume a x (edits es s)")
  from Cons.prems(1) item res obtain a2 where out: "out = Blocked a2"
    and rest: "drain_run sched a2 s2 = (s1, Blocked a1)"
    by (cases out) auto
  have "\<not> saving a2" using saving_stays [OF _ rest] Cons.prems(2) by blast
  then have "\<not> succeeded a x" using resume_saving res out by blast
  moreover have "\<not> updates_ref sched a2 s2" using Cons.IH [OF rest Cons.prems(2)] .
  ultimately show ?case using item res out by simp
qed

lemma ref_failure_general:
  assumes "drain_run sched a s = (s1, Blocked (Await_patch r c))"
  shows "(case processPublishQueue_resume (Await_patch r c) (Net (Rejected st)) (edits es s1) of
            (s2, out) \<Rightarrow>
              out = Returned
              \<and> (\<forall>p. isDirty s p \<longrightarrow> isDirty s2 p)
              \<and> pendingChanges s2 = pendingChanges (edits es s1)
              \<and> notices s2
                  = notices s1 @ [if st = Some 409 then Notice_conflict else Notice_error st])"
proof -
  have nu: "\<not> updates_ref sched a s"
    using not_yet_updated [OF assms] by simp
  have d1: "isDirty s1 p" if "isDirty s p" for p
    using dirty_survives_run [of p a sched s] nu that assms by simp
  have d2: "isDirty (edits es s1) p" if "isDirty s p" for p
    using d1 [OF that] by (rule edits_isDirty)
  have keep: "pendingChanges
      (fst (processPublishQueue_resume (Await_patch r c) (Net (Rejected st)) (edits es s1)))
      = pendingChanges (edits es s1)"
    by (simp add: processPublishQueue_resume_def publishBatch_resume_quiet
        del: publishBatch_resume.simps)
  have d3: "isDirty
      (fst (processPublishQueue_resume (Await_patch r c) (Net (Rejected st)) (edits es s1))) p"
    if "isDirty s p" for p
    using d2 [OF that] keep by (simp add: isDirty_def map_get_def)
  show ?thesis
    using d3 keep
    by (auto simp: processPublishQueue_resume_def settle_def github_done_def show_notice_def
          lower_flag_def delete_paths_def log_event_def split: option.splits)
qed

text \<open>
  C3. When the update of the branch ref fails, no path is marked clean and a notice is
  shown. Take a drain that has come from its start to the ref update, under any schedule
  of edits and answers, and let the update be rejected with status \<open>st\<close>, after any
  further edits: the drain returns, its batch is the queue as it was at the start, this
  last step changes no dirty flag, every path that was dirty at the start is dirty now,
  and one notice is added: the conflict notice for status 409, the error notice with the
  status otherwise.
\<close>

theorem ref_failure_keeps_dirty:
  assumes "drain sched s = (s1, Blocked (Await_patch r c))"
  shows "(case processPublishQueue_resume (Await_patch r c) (Net (Rejected st)) (edits es s1) of
            (s2, out) \<Rightarrow>
              out = Returned
              \<and> paths r = publishQueue s
              \<and> (\<forall>p. isDirty s p \<longrightarrow> isDirty s2 p)
              \<and> pendingChanges s2 = pendingChanges (edits es s1)
              \<and> notices s2
                  = notices s1 @ [if st = Some 409 then Notice_conflict else Notice_error st])"
proof -
  obtain s0 out0 where beg: "processPublishQueue s = (s0, out0)"
    by (cases "processPublishQueue s")
  from assms beg obtain a0 where out0: "out0 = Blocked a0"
    and run: "drain_run sched a0 s0 = (s1, Blocked (Await_patch r c))"
    by (cases out0) (auto simp: drain_def)
  have "snapshot (Await_patch r c) = snapshot a0" using run by (rule drain_run_snapshot)
  then have ps: "paths r = publishQueue s"
    using processPublishQueue_Blocked beg out0 by (simp add: snapshot_def)
  have same: "pendingChanges s0 = pendingChanges s"
    using processPublishQueue_pendingChanges [of s] beg by simp
  have d: "isDirty s0 p" if "isDirty s p" for p
    using that same by (simp add: isDirty_def map_get_def)
  show ?thesis
    using ref_failure_general [OF run, where st = st and es = es] ps d
    by (auto simp: split_def)
qed

text \<open>
  The example: the run over two notes is answered with a conflict at the ref update.
\<close>

theorem ref_failure_keeps_dirty_witness:
  "isDirty (fst (exec queued_pair example)) ''a.md''
   \<and> isDirty (fst (exec queued_pair example)) ''b.md''
   \<and> snd (processPublishQueue_resume (Await_patch pair_run ''commit'') (refused 409)
        (fst (drain up_to_patch (fst (exec queued_pair example))))) = Returned
   \<and> isDirty
       (fst (processPublishQueue_resume (Await_patch pair_run ''commit'') (refused 409)
          (fst (drain up_to_patch (fst (exec queued_pair example)))))) ''a.md''
   \<and> isDirty
       (fst (processPublishQueue_resume (Await_patch pair_run ''commit'') (refused 409)
          (fst (drain up_to_patch (fst (exec queued_pair example)))))) ''b.md''
   \<and> notices
       (fst (processPublishQueue_resume (Await_patch pair_run ''commit'') (refused 409)
          (fst (drain up_to_patch (fst (exec queued_pair example))))))
       = [Notice_error (Some 500), Notice_error (Some 500), Notice_conflict]"
proof -
  let ?s = "fst (exec queued_pair example)"
  let ?s1 = "fst (drain up_to_patch ?s)"
  have "snd (drain up_to_patch ?s) = Blocked (Await_patch pair_run ''commit'')"
    by code_simp
  then have h: "drain up_to_patch ?s = (?s1, Blocked (Await_patch pair_run ''commit''))"
    by (simp add: prod_eq_iff)
  have a: "isDirty ?s ''a.md''" by code_simp
  have b: "isDirty ?s ''b.md''" by code_simp
  have n: "notices ?s1 = [Notice_error (Some 500), Notice_error (Some 500)]" by code_simp
  show ?thesis
    using ref_failure_keeps_dirty [OF h, where st = "Some 409" and es = "[]"] a b n
    by (simp add: split_def refused_def)
qed

section \<open>One run at a time\<close>

subsection \<open>Fields the publishing code leaves alone\<close>

lemma publish_frameD:
  assumes "publish_frame f"
  shows "f (log_event m xs s) = f s" and "f (github_send r s) = f s"
    and "f (show_notice n s) = f s" and "f (map_set p v s) = f s"
  using assms by (auto simp: publish_frame_def)

lemma github_done_frame: "publish_frame f \<Longrightarrow> f (fst (github_done y s)) = f s"
  by (simp add: github_done_def publish_frameD split: reply.splits)

lemma upload_loop_frame:
  "publish_frame f \<Longrightarrow> f (fst (upload_loop r base blobs todo s)) = f s"
  by (induction todo arbitrary: s)
     (simp_all add: after_uploads_def publish_frameD split: option.splits entry.splits)

lemma with_base_frame: "publish_frame f \<Longrightarrow> f (fst (with_base r base s)) = f s"
  by (simp add: with_base_def publish_frameD upload_loop_frame split: option.splits)

lemma clear_all_frame: "publish_frame f \<Longrightarrow> f (fold (\<lambda>p. map_set p False) ps s) = f s"
  by (induction ps arbitrary: s) (simp_all add: publish_frameD)

lemma publishBatch_resume_frame:
  "publish_frame f \<Longrightarrow> f (fst (publishBatch_resume a x s)) = f s"
  by (cases "(a, x, s)" rule: publishBatch_resume.cases)
     (auto simp: split_def Let_def publish_frameD github_done_frame upload_loop_frame
           with_base_frame clear_all_frame
           split: option.splits entry.splits)

lemma publishBatch_frame: "publish_frame f \<Longrightarrow> f (fst (publishBatch ps s)) = f s"
  by (simp add: publishBatch_def Let_def publish_frameD split: option.splits)

lemma frame_flag [simp]: "publish_frame publishingInProgress"
  by (simp add: publish_frame_def log_event_def github_send_def show_notice_def map_set_def
      split: option.splits)

subsection \<open>The in-flight flag\<close>







lemma pending_loop_cases:
  obtains
    (stop) "\<not> i < length (pendingChanges s)" and "pending_loop i s = (s, Returned)"
  | (skip) "i < length (pendingChanges s)" and "pending_loop i s = pending_loop (Suc i) s"
  | (block) p s2 w where "queueFileForPublish p s = (s2, Blocked w)"
      and "pending_loop i s = (s2, Blocked (w, Suc i))"
  | (pass) p s2 where "i < length (pendingChanges s)"
      and "queueFileForPublish p s = (s2, Returned)"
      and "pending_loop i s = pending_loop (Suc i) s2"
  | (threw) p s2 where "queueFileForPublish p s = (s2, Threw)"
      and "pending_loop i s = (s2, Threw)"
proof (cases "i < length (pendingChanges s)")
  case False
  then show ?thesis using stop by (simp add: pending_loop.simps [of i s])
next
  case True
  obtain p pen where e: "pendingChanges s ! i = (p, pen)"
    by (cases "pendingChanges s ! i")
  show ?thesis
  proof (cases "pen \<and> (\<exists>f. vault s p = Some (File f))")
    case False
    then have "pending_loop i s = pending_loop (Suc i) s"
      using True e by (auto simp: pending_loop.simps [of i s] split: option.splits entry.splits)
    then show ?thesis using skip True by simp
  next
    case pf: True
    obtain s2 o2 where q: "queueFileForPublish p s = (s2, o2)"
      by (cases "queueFileForPublish p s")
    show ?thesis
    proof (cases o2)
      case (Blocked w)
      then show ?thesis
        using block [of p s2 w] True e pf q by (auto simp: pending_loop.simps [of i s])
    next
      case Returned
      then show ?thesis
        using pass [of p s2] True e pf q by (auto simp: pending_loop.simps [of i s])
    next
      case Threw
      then show ?thesis
        using threw [of p s2] True e pf q by (auto simp: pending_loop.simps [of i s])
    qed
  qed
qed

lemma pending_loop_rule [case_names stop skip block pass threw]:
  assumes "\<And>i s. \<not> i < length (pendingChanges s) \<Longrightarrow> pending_loop i s = (s, Returned) \<Longrightarrow> Q i s"
    and "\<And>i s. pending_loop i s = pending_loop (Suc i) s \<Longrightarrow> Q (Suc i) s \<Longrightarrow> Q i s"
    and "\<And>i s p s2 w. queueFileForPublish p s = (s2, Blocked w) \<Longrightarrow>
           pending_loop i s = (s2, Blocked (w, Suc i)) \<Longrightarrow> Q i s"
    and "\<And>i s p s2. queueFileForPublish p s = (s2, Returned) \<Longrightarrow>
           pending_loop i s = pending_loop (Suc i) s2 \<Longrightarrow> Q (Suc i) s2 \<Longrightarrow> Q i s"
    and "\<And>i s p s2. queueFileForPublish p s = (s2, Threw) \<Longrightarrow>
           pending_loop i s = (s2, Threw) \<Longrightarrow> Q i s"
  shows "Q i s"
proof (induction "length (pendingChanges s) - i" arbitrary: i s rule: less_induct)
  case less
  show ?case
  proof (cases i s rule: pending_loop_cases)
    case stop
    then show ?thesis using assms(1) by simp
  next
    case skip
    then show ?thesis using assms(2) less by simp
  next
    case (block p s2 w)
    then show ?thesis using assms(3) by simp
  next
    case (pass p s2)
    have "pendingChanges s2 = pendingChanges s"
      using queueFileForPublish_pendingChanges [of p s] pass(2) by simp
    then have "Q (Suc i) s2" using less pass(1) by simp
    then show ?thesis using assms(4) pass by simp
  next
    case (threw p s2)
    then show ?thesis using assms(5) by simp
  qed
qed


lemma not_in_drain_None [simp]: "\<not> in_drain None"
  by (simp add: in_drain_def)

lemma clear_handle_flag [simp]:
  "publishingInProgress (clear_handle h s) = publishingInProgress s"
  by (simp add: clear_handle_def clearTimeout_def split: option.splits)

lemma clearTimers_flag [simp]: "publishingInProgress (clearTimers s) = publishingInProgress s"
  by (simp add: clearTimers_def Let_def)








lemma handleEditorActivity_flag [simp]:
  "publishingInProgress (handleEditorActivity p s) = publishingInProgress s"
  by (simp add: handleEditorActivity_def resetDebounce_def resetInactivityTimer_def
      resetSessionTimer_def setTimeout_def Let_def split_def)

lemma vault_modify_flag [simp]:
  "publishingInProgress (vault_modify p c z s) = publishingInProgress s"
  by (simp add: vault_modify_def on_modify_def map_set_def split: option.splits entry.splits)




subsection \<open>A request that meets a run in flight\<close>

lemma untouched_refl [simp]: "untouched s s"
  by (simp add: untouched_def)


lemma gate_process: "publishingInProgress s \<Longrightarrow> processPublishQueue s = (s, Returned)"
  by (simp add: processPublishQueue_def)

lemma gate_after_size: "publishingInProgress s \<Longrightarrow> untouched s (fst (after_size p large s))"
  by (auto simp: after_size_def untouched_def processPublishQueue_def log_event_def
        set_add_def split: option.splits)






lemma gate_resume_size:
  "publishingInProgress s \<Longrightarrow> untouched s (fst (queueFileForPublish_resume (Wait_size p) x s))"
  by (cases x) (simp_all add: gate_after_size split: option.splits entry.splits)



lemma clearTimers_untouched [simp]: "untouched s (clearTimers s)"
  by (simp add: untouched_def clearTimers_def clear_handle_def clearTimeout_def Let_def
      split: option.splits)

lemma fst_spawn [simp]: "fst (spawn y ts) = fst y"
  by (cases y; cases "snd y") (auto simp: spawn_def)

lemma fst_go_on_Stop [simp]: "fst (go_on Stop y) = fst y"
  by (cases y; cases "snd y") (auto simp: go_on_def)










text \<open>
  C4. \<^verbatim>\<open>publishAllPending\<close> awaits \<^verbatim>\<open>queueFileForPublish\<close> for one dirty path after the
  other, and each call drains the queue by itself. With two dirty notes and a repository
  that accepts everything, publish-all makes two batch runs and two commits, each with
  one path in its tree; after the first call the queue holds \<^verbatim>\<open>a.md\<close> alone.
\<close>

theorem publish_all_commits_once_per_path:
  "requests (fst (exec publish_all_scenario example)) =
     [Get_ref (''o'', ''r'') ''main'',
      Post_blob (''o'', ''r'') ''one!'',
      Post_tree (''o'', ''r'') ''base'' [(''a.md'', ''blob-a'')],
      Post_commit (''o'', ''r'') ''Publish'' 1 ''tree-a'' ''base'',
      Patch_ref (''o'', ''r'') ''main'' ''commit-a'',
      Get_ref (''o'', ''r'') ''main'',
      Post_blob (''o'', ''r'') ''two!'',
      Post_tree (''o'', ''r'') ''commit-a'' [(''b.md'', ''blob-b'')],
      Post_commit (''o'', ''r'') ''Publish'' 1 ''tree-b'' ''commit-a'',
      Patch_ref (''o'', ''r'') ''main'' ''commit-b'']
   \<and> notices (fst (exec publish_all_scenario example))
       = [Notice_published 1, Notice_published 1]
   \<and> pendingChanges (fst (exec (two_edits @ [Publish_all]) example))
       = [(''a.md'', True), (''b.md'', True)]
   \<and> publishQueue (fst (exec (two_edits @ [Publish_all]) example)) = [''a.md'']"
  by code_simp

text \<open>
  C7. \<^verbatim>\<open>queueFileForPublish\<close> checks the path and the size, not the \<^verbatim>\<open>published\<close>
  property. The command \<^verbatim>\<open>gitpub-publish-current\<close> on a note without the property puts
  it into the queue and starts a batch run for it.
\<close>

theorem publish_current_skips_published_check:
  "has_published (fst example) ''draft.md'' = False
   \<and> publishQueue (fst (exec [Open_file (Some ''draft.md''), Publish_current] example))
       = [''draft.md'']
   \<and> requests (fst (exec [Open_file (Some ''draft.md''), Publish_current] example))
       = [Get_ref (''o'', ''r'') ''main'']
   \<and> snd (exec [Open_file (Some ''draft.md''), Publish_current] example)
       = [Some (Task (Wait_drain (Await_ref \<lparr>paths = [''draft.md''], repo = (''o'', ''r'')\<rparr>))
            Stop)]"
  by code_simp

section \<open>What the queue holds\<close>

lemma frame_queue [simp]: "publish_frame publishQueue"
  by (simp add: publish_frame_def log_event_def github_send_def show_notice_def map_set_def
      split: option.splits)

lemma set_fold_removeAll: "set (fold removeAll ps q) = set q - set ps"
  by (induction ps arbitrary: q) auto

lemma distinct_fold_removeAll: "distinct q \<Longrightarrow> distinct (fold removeAll ps q)"
  by (induction ps arbitrary: q) (simp_all add: distinct_removeAll)

lemma good_fold_removeAll:
  "distinct q \<Longrightarrow> list_all isSafePath q \<Longrightarrow>
     distinct (fold removeAll ps q) \<and> list_all isSafePath (fold removeAll ps q)"
  by (simp add: distinct_fold_removeAll set_fold_removeAll list_all_iff)

lemma settle_good: "good_queue (fst y) \<Longrightarrow> good_queue (fst (settle ps y))"
  by (cases y)
     (auto simp: settle_def lower_flag_def delete_paths_def good_queue_def good_fold_removeAll
        split: outcome.splits)

lemma resume_good: "good_queue s \<Longrightarrow> good_queue (fst (processPublishQueue_resume a x s))"
proof -
  assume g: "good_queue s"
  have "publishQueue (fst (publishBatch_resume a x s)) = publishQueue s"
    by (rule publishBatch_resume_frame) simp
  then have "good_queue (fst (publishBatch_resume a x s))"
    using g by (simp add: good_queue_def)
  then show ?thesis unfolding processPublishQueue_resume_def by (rule settle_good)
qed

lemma processPublishQueue_good: "good_queue s \<Longrightarrow> good_queue (fst (processPublishQueue s))"
proof -
  assume g: "good_queue s"
  let ?s = "s\<lparr>publishingInProgress := True\<rparr>"
  have "publishQueue (fst (publishBatch (publishQueue ?s) ?s)) = publishQueue ?s"
    by (rule publishBatch_frame) simp
  then have "good_queue (fst (publishBatch (publishQueue ?s) ?s))"
    using g by (simp add: good_queue_def)
  then have "good_queue (fst (settle (publishQueue ?s) (publishBatch (publishQueue ?s) ?s)))"
    by (rule settle_good)
  then show ?thesis
    using g by (auto simp: processPublishQueue_def Let_def lower_flag_def good_queue_def)
qed

lemma after_size_safe:
  assumes "good_queue s" and "isSafePath p"
  shows "safe_out (after_size p large s)"
proof -
  let ?s = "s\<lparr>publishQueue := set_add p (publishQueue s)\<rparr>"
  have "good_queue ?s"
    using assms by (auto simp: good_queue_def set_add_def)
  then have "good_queue (fst (processPublishQueue ?s))" by (rule processPublishQueue_good)
  moreover have "good_queue (log_event ''skip_large'' [p] s)"
    using assms(1) by (simp add: good_queue_def log_event_def split: option.splits)
  ultimately show ?thesis
    by (cases "processPublishQueue ?s"; cases "snd (processPublishQueue ?s)")
       (auto simp: safe_out_def after_size_def safe_wait_def)
qed

lemma queueFileForPublish_safe: "good_queue s \<Longrightarrow> safe_out (queueFileForPublish p s)"
  using after_size_safe [of s p]
  by (auto simp: queueFileForPublish_def safe_out_def safe_wait_def split: option.splits)

lemma queueFileForPublish_resume_safe:
  assumes "good_queue s" and "safe_wait w"
  shows "safe_out (queueFileForPublish_resume w x s)"
proof (cases w)
  case (Wait_size p)
  then have sp: "isSafePath p" using assms(2) by (simp add: safe_wait_def)
  show ?thesis
    using Wait_size assms(1) after_size_safe [OF assms(1) sp] sp
    by (cases x) (auto simp: safe_out_def safe_wait_def split: option.splits entry.splits)
next
  case (Wait_drain a)
  have "good_queue (fst (processPublishQueue_resume a x s))"
    using assms(1) by (rule resume_good)
  then show ?thesis
    using Wait_drain
    by (cases "processPublishQueue_resume a x s"; cases "snd (processPublishQueue_resume a x s)")
       (auto simp: safe_out_def safe_wait_def)
qed

lemma publishFileIfPending_safe: "good_queue s \<Longrightarrow> safe_out (publishFileIfPending p s)"
  using queueFileForPublish_safe [of s p]
  by (auto simp: publishFileIfPending_def safe_out_def)

lemma pending_loop_safe: "good_queue s \<longrightarrow> safe_loop (pending_loop i s)"
proof (induction i s rule: pending_loop_rule)
  case (stop i s)
  then show ?case by (simp add: safe_loop_def)
next
  case (skip i s)
  then show ?case by simp
next
  case (block i s p s2 w)
  then show ?case
    using queueFileForPublish_safe [of s p] by (auto simp: safe_loop_def safe_out_def)
next
  case (pass i s p s2)
  then show ?case
    using queueFileForPublish_safe [of s p] by (auto simp: safe_out_def)
next
  case (threw i s p s2)
  then show ?case
    using queueFileForPublish_safe [of s p] by (auto simp: safe_loop_def safe_out_def)
qed

lemma clear_handle_queue [simp]: "publishQueue (clear_handle h s) = publishQueue s"
  by (simp add: clear_handle_def clearTimeout_def split: option.splits)

lemma clearTimers_good [simp]: "good_queue (clearTimers s) = good_queue s"
  by (simp add: good_queue_def clearTimers_def Let_def)

lemma after_loop_safe: "safe_loop y \<Longrightarrow> safe_end (after_loop sess y)"
  by (cases y; cases "snd y")
     (auto simp: safe_loop_def safe_end_def after_loop_def safe_task_def)

lemma go_on_safe: "safe_out y \<Longrightarrow> safe_end (go_on k y)"
proof -
  assume so: "safe_out y"
  obtain s1 out where y: "y = (s1, out)" by (cases y)
  show ?thesis
  proof (cases out)
    case (Blocked w)
    then show ?thesis using so y by (simp add: safe_out_def safe_end_def go_on_def safe_task_def)
  next
    case Returned
    show ?thesis
    proof (cases k)
      case Stop
      then show ?thesis
        using so y Returned by (simp add: safe_out_def safe_end_def go_on_def safe_task_def)
    next
      case (Loop i sess)
      have "good_queue s1" using so y by (simp add: safe_out_def)
      then have "safe_loop (pending_loop i s1)" using pending_loop_safe by simp
      then have "safe_end (after_loop sess (pending_loop i s1))" by (rule after_loop_safe)
      then show ?thesis using y Returned Loop by (simp add: go_on_def)
    qed
  next
    case Threw
    then show ?thesis using so y by (simp add: safe_out_def safe_end_def go_on_def safe_task_def)
  qed
qed

lemma spawn_ok: "list_all safe_task ts \<Longrightarrow> safe_end y \<Longrightarrow> queue_ok (spawn y ts)"
  by (cases y; cases "snd y") (auto simp: queue_ok_def safe_end_def spawn_def)

lemma publishAllPending_safe: "good_queue s \<Longrightarrow> safe_loop (publishAllPending s)"
  using pending_loop_safe [of s 0] by (simp add: publishAllPending_def safe_loop_def)

lemma fire_ok: "queue_ok (s, ts) \<Longrightarrow> queue_ok (fire h (s, ts))"
proof -
  assume ok: "queue_ok (s, ts)"
  let ?s = "clearTimeout h s"
  have g: "good_queue ?s" and l: "list_all safe_task ts"
    using ok by (simp_all add: queue_ok_def good_queue_def clearTimeout_def)
  show ?thesis
  proof (cases "map_of (timers s) h")
    case None
    then show ?thesis using ok by (simp add: fire_def)
  next
    case (Some cb)
    show ?thesis
    proof (cases cb)
      case Cb_debounce
      then show ?thesis using Some g l by (simp add: fire_def queue_ok_def)
    next
      case (Cb_inactivity p)
      have "safe_end (go_on Stop (publishFileIfPending p ?s))"
        using g by (intro go_on_safe publishFileIfPending_safe)
      then show ?thesis using Some Cb_inactivity spawn_ok [OF l] by (simp add: fire_def)
    next
      case Cb_session
      have "safe_end (after_loop True (publishAllPending ?s))"
        using g by (intro after_loop_safe publishAllPending_safe)
      then show ?thesis using Some Cb_session spawn_ok [OF l] by (simp add: fire_def)
    qed
  qed
qed

lemma list_all_update: "list_all P ts \<Longrightarrow> P t \<Longrightarrow> list_all P (ts[n := t])"
  by (auto simp: list_all_iff dest: set_update_subset_insert [THEN subsetD])

lemma resume_ok: "queue_ok (s, ts) \<Longrightarrow> queue_ok (resume n x (s, ts))"
proof -
  assume ok: "queue_ok (s, ts)"
  then have g: "good_queue s" and l: "list_all safe_task ts" by (simp_all add: queue_ok_def)
  show ?thesis
  proof (cases "n < length ts \<and> ts ! n \<noteq> None")
    case False
    then show ?thesis using ok by (auto simp: resume_def)
  next
    case True
    then obtain w k where tk: "ts ! n = Some (Task w k)" and n: "n < length ts"
      by (cases "ts ! n") (auto intro: task.exhaust)
    have "safe_task (ts ! n)" using l n by (simp add: list_all_length)
    then have "safe_wait w" using tk by (simp add: safe_task_def)
    then have "safe_out (queueFileForPublish_resume w x s)"
      using g by (intro queueFileForPublish_resume_safe)
    then have e: "safe_end (go_on k (queueFileForPublish_resume w x s))" by (rule go_on_safe)
    show ?thesis
      using tk n e l
      by (cases "go_on k (queueFileForPublish_resume w x s)")
         (auto simp: resume_def queue_ok_def safe_end_def intro: list_all_update)
  qed
qed

lemma handleEditorActivity_queue:
  "publishQueue (handleEditorActivity p s) = publishQueue s"
  by (simp add: handleEditorActivity_def resetDebounce_def resetInactivityTimer_def
      resetSessionTimer_def setTimeout_def Let_def split_def)

lemma step_ok: "queue_ok x \<Longrightarrow> queue_ok (step a x)"
proof -
  assume ok0: "queue_ok x"
  obtain s ts where x: "x = (s, ts)" by (cases x)
  have ok: "queue_ok (s, ts)" using ok0 x by simp
  then have g: "good_queue s" and l: "list_all safe_task ts" by (simp_all add: queue_ok_def)
  have q: "safe_end (go_on Stop (queueFileForPublish p s))" for p
    using g by (intro go_on_safe queueFileForPublish_safe)
  have b: "safe_end (after_loop False (publishAllPending s))"
    using g by (intro after_loop_safe publishAllPending_safe)
  show ?thesis
  proof (cases a)
    case Publish_current
    then show ?thesis using ok x spawn_ok [OF l q] by (simp split: option.splits)
  next
    case Publish_all
    then show ?thesis using x spawn_ok [OF l b] by simp
  next
    case (View_publish p)
    then show ?thesis using ok x spawn_ok [OF l q] by (simp split: option.splits entry.splits)
  next
    case Editor_change
    then show ?thesis
      using ok x
      by (simp add: queue_ok_def good_queue_def handleEditorActivity_queue
            split: option.splits)
  next
    case (Vault_modify p c z)
    then show ?thesis
      using ok x
      by (auto simp: queue_ok_def good_queue_def vault_modify_def on_modify_def map_set_def
            split: option.splits entry.splits)
  next
    case (Fire h)
    then show ?thesis using ok x fire_ok by simp
  next
    case Unload
    then show ?thesis using ok x by (simp add: queue_ok_def)
  next
    case (Resume n y)
    then show ?thesis using ok x resume_ok by simp
  qed (use ok x in \<open>simp_all add: queue_ok_def good_queue_def\<close>)
qed

text \<open>
  The queue never holds a path twice and only holds paths that pass \<^verbatim>\<open>isSafePath\<close>:
  from a state whose queue is so and with no task, it is so after any list of actions.
\<close>

theorem queue_distinct_and_safe:
  assumes "distinct (publishQueue s0)" and "list_all isSafePath (publishQueue s0)"
  shows "distinct (publishQueue (fst (exec as (s0, []))))
     \<and> list_all isSafePath (publishQueue (fst (exec as (s0, []))))"
proof -
  have "queue_ok (s0, [])" using assms by (simp add: queue_ok_def good_queue_def)
  then have "queue_ok (exec as (s0, []))"
    unfolding exec_def by (induction as arbitrary: s0 rule: rev_induct) (simp_all add: step_ok)
  then show ?thesis by (simp add: queue_ok_def good_queue_def)
qed

theorem queue_distinct_and_safe_witness:
  "publishQueue (fst (exec queued_pair (booted example_settings example_vault, [])))
     = [''a.md'', ''b.md'']
   \<and> distinct (publishQueue (fst (exec queued_pair (booted example_settings example_vault, []))))
   \<and> list_all isSafePath
       (publishQueue (fst (exec queued_pair (booted example_settings example_vault, []))))"
proof -
  let ?s0 = "booted example_settings example_vault"
  have h1: "distinct (publishQueue ?s0)" by code_simp
  have h2: "list_all isSafePath (publishQueue ?s0)" by code_simp
  have q: "publishQueue (fst (exec queued_pair (?s0, []))) = [''a.md'', ''b.md'']"
    by code_simp
  show ?thesis
    using queue_distinct_and_safe [OF h1 h2, of queued_pair] q by simp
qed

text \<open>
  Enqueueing a file that is not eligible by its path or its size does nothing: for an
  unsafe path \<^verbatim>\<open>queueFileForPublish\<close> returns with the state as it is; for a file over the
  size limit, by \<^verbatim>\<open>stat\<close> or by the length of its text, it logs \<^verbatim>\<open>skip_large\<close> and
  returns, and the log entry changes neither the queue nor the requests sent nor the
  dirty flags.
\<close>

theorem ineligible_enqueue_is_noop:
  "(\<not> isSafePath p \<longrightarrow> queueFileForPublish p s = (s, Returned))
   \<and> (isSafePath p \<and> stat_of s p = Some n \<and> over_limit n s \<longrightarrow>
        queueFileForPublish p s = (log_event ''skip_large'' [p] s, Returned))
   \<and> (vault s p = Some (File f) \<and> over_limit (length (content f)) s \<longrightarrow>
        queueFileForPublish_resume (Wait_size p) (Disk True) s
          = (log_event ''skip_large'' [p] s, Returned))
   \<and> publishQueue (log_event ''skip_large'' [p] s) = publishQueue s
   \<and> requests (log_event ''skip_large'' [p] s) = requests s
   \<and> pendingChanges (log_event ''skip_large'' [p] s) = pendingChanges s"
  by (simp add: queueFileForPublish_def after_size_def log_event_def split: option.splits)

theorem ineligible_enqueue_is_noop_witness:
  "queueFileForPublish ''../secret.md'' grown = (grown, Returned)
   \<and> isDirty grown ''a.md''
   \<and> snd (queueFileForPublish ''a.md'' grown) = Returned
   \<and> publishQueue (fst (queueFileForPublish ''a.md'' grown)) = []
   \<and> requests (fst (queueFileForPublish ''a.md'' grown)) = []"
proof -
  have u: "\<not> isSafePath ''../secret.md''" by code_simp
  have s: "isSafePath ''a.md''" by code_simp
  have z: "stat_of grown ''a.md'' = Some 2000000" by (simp add: stat_of_def grown_def)
  have "maxFileSizeKB (sanitizeSettings example_settings) = 1024" by code_simp
  then have o: "over_limit 2000000 grown" by (simp add: over_limit_def grown_def booted_def)
  have d: "isDirty grown ''a.md''" by (simp add: isDirty_def map_get_def grown_def)
  have q: "publishQueue grown = []" by (simp add: grown_def booted_def)
  have r: "requests grown = []" by (simp add: grown_def booted_def)
  show ?thesis
    using ineligible_enqueue_is_noop [of "''../secret.md''" grown]
      ineligible_enqueue_is_noop [of "''a.md''" grown 2000000] u s z o d q r
    by simp
qed

section \<open>The queue after a drain\<close>

subsection \<open>Only a rejected host operation throws\<close>

lemma frame_vault [simp]: "publish_frame vault"
  by (simp add: publish_frame_def log_event_def github_send_def show_notice_def map_set_def
      split: option.splits)

lemma upload_loop_readable:
  "upload_loop r base blobs todo s = (s1, Blocked a1) \<Longrightarrow> readable a1 s1"
  by (induction todo arbitrary: s blobs)
     (auto simp: after_uploads_def split: option.splits entry.splits if_splits)

lemma upload_loop_never_throws: "snd (upload_loop r base blobs todo s) \<noteq> Threw"
  by (induction todo arbitrary: s blobs)
     (auto simp: after_uploads_def split: option.splits entry.splits)

lemma with_base_readable: "with_base r base s = (s1, Blocked a1) \<Longrightarrow> readable a1 s1"
  by (auto simp: with_base_def upload_loop_readable split: option.splits)

lemma with_base_never_throws: "snd (with_base r base s) \<noteq> Threw"
  by (auto simp: with_base_def upload_loop_never_throws split: option.splits)

lemma publishBatch_resume_readable:
  "publishBatch_resume a x s = (s1, Blocked a1) \<Longrightarrow> readable a s \<Longrightarrow> readable a1 s1"
  by (cases "(a, x, s)" rule: publishBatch_resume.cases)
     (auto simp: split_def Let_def upload_loop_readable with_base_readable
           split: option.splits entry.splits if_splits)

lemma publishBatch_resume_Threw:
  "publishBatch_resume a x s = (s1, Threw) \<Longrightarrow> readable a s \<Longrightarrow> x = Disk False"
  using upload_loop_never_throws with_base_never_throws
  by (cases "(a, x, s)" rule: publishBatch_resume.cases)
     (auto simp: split_def Let_def prod_eq_iff
           split: option.splits entry.splits if_splits)

subsection \<open>Edits change neither the files in place nor the queue\<close>

lemma vault_modify_keeps_file:
  "(case vault s p of Some (File f) \<Rightarrow> True | _ \<Rightarrow> False) \<Longrightarrow>
     (case vault (vault_modify q c z s) p of Some (File f) \<Rightarrow> True | _ \<Rightarrow> False)"
  by (auto simp: vault_modify_def on_modify_def map_set_def split: option.splits entry.splits)

lemma vault_modify_readable: "readable a s \<Longrightarrow> readable a (vault_modify q c z s)"
  by (cases a) (simp_all add: vault_modify_keeps_file)

lemma edits_readable: "readable a s \<Longrightarrow> readable a (edits es s)"
  unfolding edits_def
  by (induction es arbitrary: s) (auto simp: vault_modify_readable)

lemma vault_modify_queue [simp]: "publishQueue (vault_modify q c z s) = publishQueue s"
  by (auto simp: vault_modify_def on_modify_def map_set_def split: option.splits entry.splits)

lemma edits_queue [simp]: "publishQueue (edits es s) = publishQueue s"
  unfolding edits_def
  by (induction es arbitrary: s) auto

lemma edits_flag [simp]: "publishingInProgress (edits es s) = publishingInProgress s"
  unfolding edits_def
  by (induction es arbitrary: s) (simp_all add: split_def)

subsection \<open>The three ways a drain can stand\<close>

lemma resume_outcome:
  assumes "processPublishQueue_resume a x s = (s1, out)" and "readable a s"
  shows "(case out of
            Blocked a1 \<Rightarrow>
              readable a1 s1 \<and> snapshot a1 = snapshot a \<and> publishQueue s1 = publishQueue s
              \<and> publishingInProgress s1 = publishingInProgress s
          | Returned \<Rightarrow>
              \<not> publishingInProgress s1
              \<and> publishQueue s1 = fold removeAll (snapshot a) (publishQueue s)
          | Threw \<Rightarrow>
              x = Disk False \<and> \<not> publishingInProgress s1 \<and> publishQueue s1 = publishQueue s)"
proof -
  obtain s2 out2 where r: "publishBatch_resume a x s = (s2, out2)"
    by (cases "publishBatch_resume a x s")
  have q: "publishQueue s2 = publishQueue s"
    using publishBatch_resume_frame [OF frame_queue, of a x s] r by simp
  have f: "publishingInProgress s2 = publishingInProgress s"
    using publishBatch_resume_frame [OF frame_flag, of a x s] r by simp
  show ?thesis
  proof (cases out2)
    case (Blocked a2)
    then show ?thesis
      using assms r q f publishBatch_resume_readable [of a x s s2 a2]
        publishBatch_resume_run_of [of a x s s2 a2]
      by (auto simp: processPublishQueue_resume_def settle_def snapshot_def)
  next
    case Returned
    then show ?thesis
      using assms(1) r q
      by (auto simp: processPublishQueue_resume_def settle_def lower_flag_def delete_paths_def)
  next
    case Threw
    then show ?thesis
      using assms r q publishBatch_resume_Threw [of a x s s2]
      by (auto simp: processPublishQueue_resume_def settle_def lower_flag_def)
  qed
qed

lemma drain_run_outcome:
  "drain_run sched a s = (s1, out) \<Longrightarrow> readable a s \<Longrightarrow>
     (case out of
        Blocked a1 \<Rightarrow>
          readable a1 s1 \<and> snapshot a1 = snapshot a \<and> publishQueue s1 = publishQueue s
          \<and> publishingInProgress s1 = publishingInProgress s
      | Returned \<Rightarrow>
          \<not> publishingInProgress s1
          \<and> publishQueue s1 = fold removeAll (snapshot a) (publishQueue s)
      | Threw \<Rightarrow>
          Disk False \<in> snd ` set sched \<and> \<not> publishingInProgress s1
          \<and> publishQueue s1 = publishQueue s)"
proof (induction sched arbitrary: a s)
  case Nil
  then show ?case by auto
next
  case (Cons item sched)
  obtain es x where item: "item = (es, x)" by (cases item)
  obtain s2 out2 where res: "processPublishQueue_resume a x (edits es s) = (s2, out2)"
    by (cases "processPublishQueue_resume a x (edits es s)")
  have rd: "readable a (edits es s)" using Cons.prems(2) by (rule edits_readable)
  note one = resume_outcome [OF res rd]
  show ?case
  proof (cases out2)
    case (Blocked a2)
    then have rest: "drain_run sched a2 s2 = (s1, out)" using Cons.prems(1) item res by simp
    have rd2: "readable a2 s2" using one Blocked by simp
    show ?thesis
      using Cons.IH [OF rest rd2] one Blocked item
      by (cases out) auto
  next
    case Returned
    then have "s1 = s2" "out = Returned" using Cons.prems(1) item res by auto
    then show ?thesis using one Returned by simp
  next
    case Threw
    then have "s1 = s2" "out = Threw" using Cons.prems(1) item res by auto
    then show ?thesis using one Threw item by (auto simp: image_iff)
  qed
qed

lemma processPublishQueue_outcome:
  assumes "\<not> publishingInProgress s" and "ensureGitHubConfig s"
    and "processPublishQueue s = (s1, out)"
  shows "(case out of
            Blocked a \<Rightarrow>
              readable a s1 \<and> snapshot a = publishQueue s \<and> publishQueue s1 = publishQueue s
              \<and> publishingInProgress s1
          | Returned \<Rightarrow>
              \<not> publishingInProgress s1
              \<and> publishQueue s1 = fold removeAll (publishQueue s) (publishQueue s)
          | Threw \<Rightarrow> False)"
  using assms
  by (auto simp: processPublishQueue_def publishBatch_def settle_def lower_flag_def
        delete_paths_def snapshot_def Let_def log_event_def github_send_def
        split: if_splits option.splits)

lemma sha_of_No_body [simp]: "sha_of No_body = None"
  by (simp add: sha_of_def)

lemma failure_returns:
  "ends_on_failure a \<Longrightarrow> failed a y \<Longrightarrow>
     snd (processPublishQueue_resume a (Net y) s) = Returned"
  by (cases a; cases y)
     (auto simp: processPublishQueue_resume_def settle_def github_done_def with_base_def
        after_uploads_def split_def Let_def)

text \<open>
  C10, as amended. A drain that starts (no run in flight, repository and token set)
  takes the whole queue as its snapshot, and under any schedule of edits and answers it
  is in one of three states. If it has returned, the in-flight flag is down and no path
  that was queued at its start is left in the queue. If it was left by an exception,
  then \<^verbatim>\<open>vault.read\<close> or \<^verbatim>\<open>saveData\<close> has rejected; the flag is down and the queue
  is what it was at the start: the snapshot stays queued. Otherwise it is suspended with
  the flag up and the queue as it was; and if it is suspended at a stage where a failed
  request ends the run (branch unresolvable, no blobs, tree, commit, ref update), then
  the failure of that request (it is rejected with any status, or its answer lacks what
  the run reads from it), after any further edits, makes the drain return with the flag
  down and the snapshot out of the queue.
\<close>

theorem drain_empties_snapshot:
  assumes "\<not> publishingInProgress s" and "ensureGitHubConfig s"
    and "drain sched s = (s1, out)"
  shows "(case out of
            Returned \<Rightarrow>
              \<not> publishingInProgress s1 \<and> set (publishQueue s1) \<inter> set (publishQueue s) = {}
          | Threw \<Rightarrow>
              Disk False \<in> snd ` set sched \<and> \<not> publishingInProgress s1
              \<and> publishQueue s1 = publishQueue s
          | Blocked a \<Rightarrow>
              publishingInProgress s1 \<and> snapshot a = publishQueue s
              \<and> publishQueue s1 = publishQueue s
              \<and> (ends_on_failure a \<and> failed a y \<longrightarrow>
                   (case processPublishQueue_resume a (Net y) (edits es s1) of
                      (s2, out2) \<Rightarrow>
                        out2 = Returned \<and> \<not> publishingInProgress s2
                        \<and> set (publishQueue s2) \<inter> set (publishQueue s) = {})))"
proof -
  obtain s0 out0 where beg: "processPublishQueue s = (s0, out0)"
    by (cases "processPublishQueue s")
  note start = processPublishQueue_outcome [OF assms(1,2) beg]
  show ?thesis
  proof (cases out0)
    case Returned
    then have "s1 = s0" "out = Returned" using assms(3) beg by (auto simp: drain_def)
    then show ?thesis using start Returned by (simp add: set_fold_removeAll)
  next
    case Threw
    then show ?thesis using start by simp
  next
    case (Blocked a0)
    then have run: "drain_run sched a0 s0 = (s1, out)" using assms(3) beg by (simp add: drain_def)
    have rd: "readable a0 s0" using start Blocked by simp
    note rest = drain_run_outcome [OF run rd]
    show ?thesis
    proof (cases out)
      case Returned
      then show ?thesis using rest start Blocked by (simp add: set_fold_removeAll)
    next
      case Threw
      then show ?thesis using rest start Blocked by simp
    next
      case b: (Blocked a)
      have fin: "out2 = Returned \<and> \<not> publishingInProgress s2
          \<and> set (publishQueue s2) \<inter> set (publishQueue s) = {}"
        if e: "ends_on_failure a" and fy: "failed a y"
          and r: "processPublishQueue_resume a (Net y) (edits es s1) = (s2, out2)"
        for s2 out2
      proof -
        have o: "out2 = Returned" using failure_returns [OF e fy, of "edits es s1"] r by simp
        have "readable a (edits es s1)" using rest b by (simp add: edits_readable)
        from resume_outcome [OF r this] show ?thesis
          using o rest b start Blocked by (simp add: set_fold_removeAll)
      qed
      show ?thesis using rest start Blocked b fin by (auto simp: split_def prod_eq_iff)
    qed
  qed
qed

text \<open>
  Two examples, over the queue \<^verbatim>\<open>a.md\<close>, \<^verbatim>\<open>b.md\<close> of two dirty notes. The tree
  request is refused: the drain has returned, the notes are out of the queue and still
  dirty. The drain is suspended at the commit request, and that request is refused: the
  drain returns and the notes are out of the queue.
\<close>

theorem drain_empties_snapshot_witness:
  "publishQueue (fst (exec queued_pair example)) = [''a.md'', ''b.md'']
   \<and> snd (drain tree_refused (fst (exec queued_pair example))) = Returned
   \<and> ''a.md'' \<notin> set (publishQueue (fst (drain tree_refused (fst (exec queued_pair example)))))
   \<and> ''b.md'' \<notin> set (publishQueue (fst (drain tree_refused (fst (exec queued_pair example)))))
   \<and> isDirty (fst (drain tree_refused (fst (exec queued_pair example)))) ''a.md''
   \<and> snd (drain up_to_commit (fst (exec queued_pair example))) = Blocked (Await_commit pair_run)
   \<and> snd (processPublishQueue_resume (Await_commit pair_run) (refused 500)
        (fst (drain up_to_commit (fst (exec queued_pair example))))) = Returned
   \<and> ''a.md'' \<notin> set (publishQueue
        (fst (processPublishQueue_resume (Await_commit pair_run) (refused 500)
           (fst (drain up_to_commit (fst (exec queued_pair example)))))))
   \<and> ''b.md'' \<notin> set (publishQueue
        (fst (processPublishQueue_resume (Await_commit pair_run) (refused 500)
           (fst (drain up_to_commit (fst (exec queued_pair example)))))))"
proof -
  let ?s = "fst (exec queued_pair example)"
  have h1: "\<not> publishingInProgress ?s" by code_simp
  have h2: "ensureGitHubConfig ?s" by code_simp
  have q: "publishQueue ?s = [''a.md'', ''b.md'']" by code_simp
  have o1: "snd (drain tree_refused ?s) = Returned" by code_simp
  have h3: "drain tree_refused ?s = (fst (drain tree_refused ?s), Returned)"
    using o1 by (simp add: prod_eq_iff)
  have d: "isDirty (fst (drain tree_refused ?s)) ''a.md''" by code_simp
  have o2: "snd (drain up_to_commit ?s) = Blocked (Await_commit pair_run)" by code_simp
  have h4: "drain up_to_commit ?s
      = (fst (drain up_to_commit ?s), Blocked (Await_commit pair_run))"
    using o2 by (simp add: prod_eq_iff)
  have a: "''a.md'' \<notin> set (publishQueue (fst (drain tree_refused ?s)))
      \<and> ''b.md'' \<notin> set (publishQueue (fst (drain tree_refused ?s)))"
    using drain_empties_snapshot [OF h1 h2 h3] q by simp
  have b: "snd (processPublishQueue_resume (Await_commit pair_run) (refused 500)
        (fst (drain up_to_commit ?s))) = Returned
      \<and> ''a.md'' \<notin> set (publishQueue
        (fst (processPublishQueue_resume (Await_commit pair_run) (refused 500)
           (fst (drain up_to_commit ?s)))))
      \<and> ''b.md'' \<notin> set (publishQueue
        (fst (processPublishQueue_resume (Await_commit pair_run) (refused 500)
           (fst (drain up_to_commit ?s)))))"
    using drain_empties_snapshot [OF h1 h2 h4, where y = "Rejected (Some 500)" and es = "[]"] q
    by (simp add: split_def refused_def)
  show ?thesis using q o1 d o2 a b by simp
qed

text \<open>
  The claim as written fails for a run that is left by an exception. With the same queue,
  \<^verbatim>\<open>vault.read\<close> rejects: the drain is over, the flag is down, and both paths are still
  queued. In the event loop: the run for the dirty \<^verbatim>\<open>a.md\<close> ends when
  \<^verbatim>\<open>vault.read\<close> rejects, and \<^verbatim>\<open>a.md\<close> stays queued. When \<^verbatim>\<open>saveSettings\<close> rejects
  instead, after the ref has been updated, \<^verbatim>\<open>a.md\<close> is clean and still queued, and
  the next run, started by the command on \<^verbatim>\<open>c.md\<close>, uploads it again: whether it is
  published again depends on the queue, not on its dirty flag.
\<close>

theorem rejected_read_keeps_snapshot_counterexample:
  "publishQueue (fst (exec queued_pair example)) = [''a.md'', ''b.md'']
   \<and> snd (drain read_rejected (fst (exec queued_pair example))) = Threw
   \<and> publishingInProgress (fst (drain read_rejected (fst (exec queued_pair example)))) = False
   \<and> publishQueue (fst (drain read_rejected (fst (exec queued_pair example))))
       = [''a.md'', ''b.md'']
   \<and> snd (exec rejected_read example) = [None]
   \<and> publishingInProgress (fst (exec rejected_read example)) = False
   \<and> publishQueue (fst (exec rejected_read example)) = [''a.md'']
   \<and> snd (exec rejected_save example) = [None]
   \<and> publishQueue (fst (exec rejected_save example)) = [''a.md'']
   \<and> isDirty (fst (exec rejected_save example)) ''a.md'' = False
   \<and> snd (exec (rejected_save @ unrelated_request) example)
       = [None,
          Some (Task (Wait_drain
            (Await_blob \<lparr>paths = [''a.md'', ''c.md''], repo = (''o'', ''r'')\<rparr>
               ''base'' [] ''a.md'' [''c.md''])) Stop)]
   \<and> requests (fst (exec (rejected_save @ unrelated_request) example))
       = [Get_ref (''o'', ''r'') ''main'', Post_blob (''o'', ''r'') ''one!'',
          Post_tree (''o'', ''r'') ''base'' [(''a.md'', ''blob-a'')],
          Post_commit (''o'', ''r'') ''Publish'' 1 ''tree'' ''base'',
          Patch_ref (''o'', ''r'') ''main'' ''commit'',
          Get_ref (''o'', ''r'') ''main'', Post_blob (''o'', ''r'') ''one!'']"
  by code_simp

section \<open>Timers\<close>

lemma host_frameD:
  assumes "host_frame f"
  shows "publish_frame f" and "f (s\<lparr>publishQueue := q\<rparr>) = f s"
    and "f (s\<lparr>publishingInProgress := b\<rparr>) = f s"
  using assms by (auto simp: host_frame_def)

lemma settle_frame: "host_frame f \<Longrightarrow> f (fst (settle ps y)) = f (fst y)"
  by (cases y)
     (auto simp: settle_def lower_flag_def delete_paths_def host_frameD split: outcome.splits)

lemma resume_frame: "host_frame f \<Longrightarrow> f (fst (processPublishQueue_resume a x s)) = f s"
  by (simp add: processPublishQueue_resume_def settle_frame publishBatch_resume_frame
      host_frameD(1) del: publishBatch_resume.simps)

lemma processPublishQueue_frame: "host_frame f \<Longrightarrow> f (fst (processPublishQueue s)) = f s"
  by (simp add: processPublishQueue_def Let_def settle_frame publishBatch_frame host_frameD
      lower_flag_def)

lemma after_size_frame: "host_frame f \<Longrightarrow> f (fst (after_size p large s)) = f s"
  by (simp add: after_size_def processPublishQueue_frame host_frameD
      publish_frameD [OF host_frameD(1)])

lemma queueFileForPublish_frame: "host_frame f \<Longrightarrow> f (fst (queueFileForPublish p s)) = f s"
  by (simp add: queueFileForPublish_def after_size_frame split: option.splits)

lemma queueFileForPublish_resume_frame:
  "host_frame f \<Longrightarrow> f (fst (queueFileForPublish_resume w x s)) = f s"
  by (cases "(w, x, s)" rule: queueFileForPublish_resume.cases)
     (auto simp: after_size_frame resume_frame split: option.splits entry.splits)

lemma publishFileIfPending_frame:
  "host_frame f \<Longrightarrow> f (fst (publishFileIfPending p s)) = f s"
  by (simp add: publishFileIfPending_def queueFileForPublish_frame)

lemma pending_loop_frame: "host_frame f \<longrightarrow> f (fst (pending_loop i s)) = f s"
proof (induction i s rule: pending_loop_rule)
  case (stop i s)
  then show ?case by simp
next
  case (skip i s)
  then show ?case by simp
next
  case (block i s p s2 w)
  then show ?case using queueFileForPublish_frame [of f p s] by auto
next
  case (pass i s p s2)
  then show ?case using queueFileForPublish_frame [of f p s] by auto
next
  case (threw i s p s2)
  then show ?case using queueFileForPublish_frame [of f p s] by auto
qed

lemma publishAllPending_frame: "host_frame f \<Longrightarrow> f (fst (publishAllPending s)) = f s"
  using pending_loop_frame [of f 0 s] by (simp add: publishAllPending_def)

lemma frame_armed [simp]: "host_frame armed"
  by (simp add: host_frame_def publish_frame_def armed_def log_event_def github_send_def
      show_notice_def map_set_def split: option.splits)

lemma tracked_clearTimeout: "tracked s \<Longrightarrow> tracked (clearTimeout h s)"
  by (auto simp: tracked_def clearTimeout_def list_all_iff)

lemma tracked_clear_handle: "tracked s \<Longrightarrow> tracked (clear_handle h s)"
  by (simp add: clear_handle_def tracked_clearTimeout split: option.splits)

lemma tracked_clearTimers:
  assumes "tracked s"
  shows "timers (clearTimers s) = []"
proof -
  have "(h, cb) \<notin> set (timers (clearTimers s))" for h cb
    using assms
    by (cases "inactivityHandle s"; cases "sessionHandle s"; cases "debounceHandle s")
       (auto simp: tracked_def clearTimers_def clear_handle_def clearTimeout_def Let_def
          list_all_iff)
  then show ?thesis by (cases "timers (clearTimers s)") auto
qed

lemma tracked_no_timers: "timers s = [] \<Longrightarrow> tracked s"
  by (simp add: tracked_def)

lemma clearTimers_tracked: "tracked s \<Longrightarrow> tracked (clearTimers s)"
  by (simp add: tracked_clearTimers tracked_no_timers)

lemma tracked_resetDebounce: "tracked s \<Longrightarrow> tracked (resetDebounce s)"
  by (cases "debounceHandle s")
     (auto simp: tracked_def resetDebounce_def setTimeout_def clear_handle_def clearTimeout_def
        Let_def list_all_iff)

lemma tracked_resetInactivityTimer: "tracked s \<Longrightarrow> tracked (resetInactivityTimer p s)"
  by (cases "inactivityHandle s")
     (auto simp: tracked_def resetInactivityTimer_def setTimeout_def clear_handle_def
        clearTimeout_def Let_def list_all_iff)

lemma tracked_resetSessionTimer: "tracked s \<Longrightarrow> tracked (resetSessionTimer s)"
  by (cases "sessionHandle s")
     (auto simp: tracked_def resetSessionTimer_def setTimeout_def clear_handle_def
        clearTimeout_def Let_def list_all_iff)

lemma tracked_handleEditorActivity: "tracked s \<Longrightarrow> tracked (handleEditorActivity p s)"
proof -
  assume t: "tracked s"
  have a: "tracked (s\<lparr>lastActivityTime := Some (clock s)\<rparr>)"
    using t by (simp add: tracked_def)
  have b: "tracked (s\<lparr>lastActivityTime := Some (clock s), sessionStart := Some (clock s)\<rparr>)"
    using t by (simp add: tracked_def)
  show ?thesis
    using t a b
    by (auto simp: handleEditorActivity_def Let_def
          intro!: tracked_resetDebounce tracked_resetInactivityTimer tracked_resetSessionTimer)
qed

lemma tracked_frame: "tracked s \<Longrightarrow> armed s1 = armed s \<Longrightarrow> tracked s1"
  by (simp add: armed_def tracked_def)

lemma after_loop_tracked:
  "tracked (fst y) \<Longrightarrow> tracked (fst (after_loop sess y))"
  by (cases y; cases "snd y")
     (auto simp: after_loop_def clearTimers_tracked split: outcome.splits)

lemma go_on_tracked: "tracked (fst y) \<Longrightarrow> tracked (fst (go_on k y))"
proof -
  assume t: "tracked (fst y)"
  obtain s1 out where y: "y = (s1, out)" by (cases y)
  show ?thesis
  proof (cases k)
    case Stop
    then show ?thesis using t by simp
  next
    case (Loop i sess)
    have "tracked (fst (pending_loop i s1))"
      using t y pending_loop_frame [of armed i s1] by (auto intro: tracked_frame)
    then have "tracked (fst (after_loop sess (pending_loop i s1)))"
      by (rule after_loop_tracked)
    then show ?thesis using t y Loop by (cases out) (auto simp: go_on_def)
  qed
qed

lemma fire_tracked: "tracked s \<Longrightarrow> tracked (fst (fire h (s, ts)))"
proof -
  assume t: "tracked s"
  let ?s = "clearTimeout h s"
  have t1: "tracked ?s" using t by (rule tracked_clearTimeout)
  show ?thesis
  proof (cases "map_of (timers s) h")
    case None
    then show ?thesis using t by (simp add: fire_def)
  next
    case (Some cb)
    show ?thesis
    proof (cases cb)
      case Cb_debounce
      then show ?thesis using Some t1 by (simp add: fire_def)
    next
      case (Cb_inactivity p)
      have "armed (fst (publishFileIfPending p ?s)) = armed ?s"
        by (rule publishFileIfPending_frame) simp
      then have "tracked (fst (publishFileIfPending p ?s))"
        using t1 by (rule tracked_frame [rotated])
      then have "tracked (fst (go_on Stop (publishFileIfPending p ?s)))"
        by (rule go_on_tracked)
      then show ?thesis using Some Cb_inactivity by (simp add: fire_def)
    next
      case Cb_session
      have "armed (fst (publishAllPending ?s)) = armed ?s"
        by (rule publishAllPending_frame) simp
      then have "tracked (fst (publishAllPending ?s))"
        using t1 by (rule tracked_frame [rotated])
      then have "tracked (fst (after_loop True (publishAllPending ?s)))"
        by (rule after_loop_tracked)
      then show ?thesis using Some Cb_session by (simp add: fire_def)
    qed
  qed
qed

lemma resume_tracked: "tracked s \<Longrightarrow> tracked (fst (resume n x (s, ts)))"
proof -
  assume t: "tracked s"
  show ?thesis
  proof (cases "n < length ts \<and> ts ! n \<noteq> None")
    case False
    then show ?thesis using t by (auto simp: resume_def)
  next
    case True
    then obtain w k where tk: "ts ! n = Some (Task w k)" and n: "n < length ts"
      by (cases "ts ! n") (auto intro: task.exhaust)
    have "tracked (fst (queueFileForPublish_resume w x s))"
      using t queueFileForPublish_resume_frame [of armed w x s] by (auto intro: tracked_frame)
    then have "tracked (fst (go_on k (queueFileForPublish_resume w x s)))"
      by (rule go_on_tracked)
    then show ?thesis
      using tk n by (cases "go_on k (queueFileForPublish_resume w x s)") (simp add: resume_def)
  qed
qed

lemma step_tracked: "tracked (fst x) \<Longrightarrow> tracked (fst (step a x))"
proof -
  assume t0: "tracked (fst x)"
  obtain s ts where x: "x = (s, ts)" by (cases x)
  have t: "tracked s" using t0 x by simp
  have q: "tracked (fst (queueFileForPublish p s))" for p
    using t queueFileForPublish_frame [of armed p s] by (auto intro: tracked_frame)
  have b: "tracked (fst (publishAllPending s))"
    using t publishAllPending_frame [of armed s] by (auto intro: tracked_frame)
  show ?thesis
  proof (cases a)
    case Publish_current
    then show ?thesis using t x q by (simp split: option.splits)
  next
    case Publish_all
    then show ?thesis using x after_loop_tracked [OF b] by simp
  next
    case (View_publish p)
    then show ?thesis using t x q by (simp split: option.splits entry.splits)
  next
    case Editor_change
    then show ?thesis using t x tracked_handleEditorActivity by (simp split: option.splits)
  next
    case (Vault_modify p c z)
    then show ?thesis
      using t x
      by (auto simp: tracked_def vault_modify_def on_modify_def map_set_def
            split: option.splits entry.splits)
  next
    case (Fire h)
    then show ?thesis using t x fire_tracked by simp
  next
    case Unload
    then show ?thesis using t x clearTimers_tracked by simp
  next
    case (Resume n y)
    then show ?thesis using t x resume_tracked by simp
  qed (use t x in \<open>simp_all add: tracked_def\<close>)
qed

lemma exec_tracked: "tracked (fst x) \<Longrightarrow> tracked (fst (exec as x))"
  unfolding exec_def by (induction as arbitrary: x) (simp_all add: step_tracked)

lemma clearTimers_handles:
  "inactivityHandle (clearTimers s) = None \<and> sessionHandle (clearTimers s) = None
   \<and> debounceHandle (clearTimers s) = None \<and> sessionStart (clearTimers s) = None"
  by (simp add: clearTimers_def Let_def)

lemma clearTimers_idem: "clearTimers (clearTimers s) = clearTimers s"
  by (simp add: clearTimers_def Let_def clear_handle_def)

lemma fire_unarmed: "timers s = [] \<Longrightarrow> fire h (s, ts) = (s, ts)"
  by (simp add: fire_def)

lemma fire_disabled:
  assumes "\<not> autoPublishEnabled (settings s)"
  shows "snd (fire h (s, ts)) = ts \<and> requests (fst (fire h (s, ts))) = requests s
     \<and> pendingChanges (fst (fire h (s, ts))) = pendingChanges s
     \<and> publishQueue (fst (fire h (s, ts))) = publishQueue s"
proof (cases "map_of (timers s) h")
  case None
  then show ?thesis by (simp add: fire_def)
next
  case (Some cb)
  then show ?thesis
    using assms
    by (cases cb)
       (simp_all add: fire_def clearTimeout_def publishFileIfPending_def publishAllPending_def
          go_on_def after_loop_def spawn_def clearTimers_def clear_handle_def Let_def
          split: option.splits)
qed

text \<open>
  C8, as amended. Unloading cancels the inactivity timer, the session timer and the
  debounce gate: from a state in which every armed timeout is held by a handle, after
  any list of actions, \<^verbatim>\<open>onunload\<close> leaves no timeout armed and the three handles empty,
  so no callback fires any more, and a second \<^verbatim>\<open>onunload\<close> changes nothing; the
  cancellation looks at no setting. Disabling auto-publish cancels nothing; instead every
  callback is gated by the setting: while it is off, editing arms no timer, and a timeout
  that fires starts no task, sends no request and changes neither the dirty flags nor the
  queue.
\<close>

theorem unload_cancels_timers:
  assumes "tracked s0"
  shows "timers (fst (step Unload (exec as (s0, ts0)))) = []
     \<and> inactivityHandle (fst (step Unload (exec as (s0, ts0)))) = None
     \<and> sessionHandle (fst (step Unload (exec as (s0, ts0)))) = None
     \<and> debounceHandle (fst (step Unload (exec as (s0, ts0)))) = None
     \<and> step (Fire h) (step Unload (exec as (s0, ts0))) = step Unload (exec as (s0, ts0))
     \<and> step Unload (step Unload (exec as (s0, ts0))) = step Unload (exec as (s0, ts0))
     \<and> (\<not> autoPublishEnabled (settings s0) \<longrightarrow>
          handleEditorActivity p s0 = s0
          \<and> snd (step (Fire h) (s0, ts0)) = ts0
          \<and> requests (fst (step (Fire h) (s0, ts0))) = requests s0
          \<and> pendingChanges (fst (step (Fire h) (s0, ts0))) = pendingChanges s0
          \<and> publishQueue (fst (step (Fire h) (s0, ts0))) = publishQueue s0)"
proof -
  obtain s ts where x: "exec as (s0, ts0) = (s, ts)" by (cases "exec as (s0, ts0)")
  have "tracked (fst (exec as (s0, ts0)))" using assms exec_tracked [of "(s0, ts0)" as] by simp
  then have t: "tracked s" unfolding x by simp
  have u: "step Unload (s, ts) = (clearTimers s, ts)" by simp
  have none: "timers (clearTimers s) = []" using t by (rule tracked_clearTimers)
  have f: "step (Fire h) (clearTimers s, ts) = (clearTimers s, ts)"
    using fire_unarmed [OF none] by simp
  have i: "step Unload (clearTimers s, ts) = (clearTimers s, ts)"
    by (simp add: clearTimers_idem)
  have h: "inactivityHandle (clearTimers s) = None" "sessionHandle (clearTimers s) = None"
    "debounceHandle (clearTimers s) = None"
    using clearTimers_handles [of s] by simp_all
  have d: "handleEditorActivity p s0 = s0" if "\<not> autoPublishEnabled (settings s0)"
    using that by (simp add: handleEditorActivity_def)
  have g: "step (Fire h) (s0, ts0) = fire h (s0, ts0)" by simp
  have e: "snd (step (Fire h) (s0, ts0)) = ts0
      \<and> requests (fst (step (Fire h) (s0, ts0))) = requests s0
      \<and> pendingChanges (fst (step (Fire h) (s0, ts0))) = pendingChanges s0
      \<and> publishQueue (fst (step (Fire h) (s0, ts0))) = publishQueue s0"
    if "\<not> autoPublishEnabled (settings s0)"
    unfolding g using that by (rule fire_disabled)
  show ?thesis
    unfolding x u fst_conv
    using none f i h d e by blast
qed

text \<open>
  The example: three timeouts are armed, then auto-publish is switched off.
\<close>

theorem unload_cancels_timers_witness:
  "tracked (fst (exec typing_then_disabled example))
   \<and> length (timers (fst (exec typing_then_disabled example))) = 3
   \<and> timers (fst (step Unload (exec [Tick 5] (exec typing_then_disabled example)))) = []
   \<and> requests (fst (step (Fire 2) (exec typing_then_disabled example))) = []
   \<and> snd (step (Fire 2) (exec typing_then_disabled example)) = []"
proof -
  let ?s0 = "fst (exec typing_then_disabled example)"
  have x: "exec typing_then_disabled example = (?s0, [])"
  proof -
    have "snd (exec typing_then_disabled example) = []" by code_simp
    then show ?thesis by (simp add: prod_eq_iff)
  qed
  have t: "tracked ?s0" by code_simp
  have n: "length (timers ?s0) = 3" by code_simp
  have off: "\<not> autoPublishEnabled (settings ?s0)" by code_simp
  have r: "requests ?s0 = []" by code_simp
  note main = unload_cancels_timers [OF t, of "[Tick 5]" "[]" 2 "''a.md''"]
  show ?thesis
    using main t n off r by (simp only: x [symmetric] simp_thms)
qed

text \<open>
  The claim as written fails for disabling: after an edit and the switch to off, the
  three timeouts are still armed and held, and the inactivity timeout fires.
\<close>

theorem disabling_leaves_timers_counterexample:
  "timers (fst (exec typing_then_disabled example))
     = [(1, Cb_session), (2, Cb_inactivity ''a.md''), (3, Cb_debounce)]
   \<and> inactivityHandle (fst (exec typing_then_disabled example)) = Some 2
   \<and> sessionHandle (fst (exec typing_then_disabled example)) = Some 1
   \<and> debounceHandle (fst (exec typing_then_disabled example)) = Some 3
   \<and> autoPublishEnabled (settings (fst (exec typing_then_disabled example))) = False
   \<and> timers (fst (step (Fire 2) (exec typing_then_disabled example)))
       = [(1, Cb_session), (3, Cb_debounce)]"
  by code_simp

end
